theory Spec2Isabelle
  imports Complex_Main "HOL-Library.Word" "HOL-Library.AList" "HOL-Library.Multiset"
begin

section \<open>Expected Consensus simulator: data model\<close>

text \<open>
  The Go program simulates rational miners under Expected Consensus. Go's \<open>int\<close> is
  modelled by \<open>int\<close> (ids, heights and weights count blocks and rounds and stay far from
  the 64-bit range), \<open>uint64\<close> by \<open>64 word\<close> (the ticket arithmetic wraps), \<open>float64\<close>
  by \<open>real\<close>. A \<open>*Tipset\<close> that may be \<open>nil\<close> is a \<open>tipset option\<close>. Blocks and
  tipsets are immutable apart from the two flags \<open>InHead\<close> and \<open>WasHead\<close>, so a pointer
  is modelled by the value it points to; the one place where the flags are written,
  \<open>setHead\<close>, returns the updated values.
\<close>

datatype block =
  Block (Nonce: int) (Parents: "tipset option") (Owner: int) (Height: int)
        (Null: bool) (ParentWeight: int) (Seed: "64 word") (InHead: bool)
and tipset =
  Tipset (Blocks: "block list") (Name: string) (MinTicket: "64 word")
         (WasHead: bool) (Weight: int)

text \<open>Every panic of the program is a value of this type.\<close>

datatype error =
    EmptyTipset         \<comment> \<open>\<open>panic("Don't call weight on no parents")\<close>\<close>
  | EmptyHeight         \<comment> \<open>\<open>panic("Don't call height on no parents")\<close>\<close>
  | EmptyParents        \<comment> \<open>\<open>panic("Don't call parents on nil blocks")\<close>\<close>
  | NilDeref            \<comment> \<open>nil pointer dereference\<close>
  | IndexOutOfRange     \<comment> \<open>index out of range\<close>
  | HeightMismatch      \<comment> \<open>\<open>panic("Check your assumptions: ...")\<close>\<close>
  | BadLimit            \<comment> \<open>\<open>crypto/rand.Int\<close> or \<open>Int63n\<close> called with a limit \<open>\<le> 0\<close>\<close>
  | BadLength           \<comment> \<open>\<open>make\<close> with a negative length\<close>
  | NoTrials            \<comment> \<open>\<open>panic("None of your assumptions have been proven wrong")\<close>\<close>

definition andThen :: "error + 'a \<Rightarrow> ('a \<Rightarrow> error + 'b) \<Rightarrow> error + 'b" where
  "andThen m f = (case m of Inl e \<Rightarrow> Inl e | Inr x \<Rightarrow> f x)"

text \<open>A loop that builds a slice with \<open>append\<close>, stopping at the first panic.\<close>

fun mapE :: "('a \<Rightarrow> error + 'b) \<Rightarrow> 'a list \<Rightarrow> error + 'b list" where
  "mapE f [] = Inr []"
| "mapE f (x # xs) = andThen (f x) (\<lambda>y. andThen (mapE f xs) (\<lambda>ys. Inr (y # ys)))"

text \<open>A loop that updates its variables, stopping at the first panic.\<close>

fun foldE :: "('s \<Rightarrow> 'a \<Rightarrow> error + 's) \<Rightarrow> 'a list \<Rightarrow> 's \<Rightarrow> error + 's" where
  "foldE f [] s = Inr s"
| "foldE f (x # xs) s = andThen (f s x) (foldE f xs)"

subsection \<open>The Go library\<close>

text \<open>
  The standard library is not part of the repository. What the program uses of it is a
  parameter: \<open>sortSlice\<close> is \<open>sort.Slice\<close> with the comparison \<open>Seed < Seed\<close> (not
  stable in Go, so nothing but a sorted permutation is assumed of it); \<open>randSeed v\<close> is
  the state of a \<open>rand.Rand\<close> after \<open>Seed(int64(v))\<close> (or \<open>rand.New(rand.NewSource(..))\<close>),
  and \<open>randInt63n\<close> is \<open>Int63n\<close>, returning the number drawn and the next state.
\<close>

record 'r golib =
  sortSlice :: "block list \<Rightarrow> block list"
  randSeed :: "64 word \<Rightarrow> 'r"
  randInt63n :: "'r \<Rightarrow> int \<Rightarrow> int \<times> 'r"

definition sort_ok :: "('r, 'x) golib_scheme \<Rightarrow> bool" where
  "sort_ok L = (\<forall>bs. mset (sortSlice L bs) = mset bs \<and> sorted (map Seed (sortSlice L bs)))"

definition rand_ok :: "('r, 'x) golib_scheme \<Rightarrow> bool" where
  "rand_ok L = (\<forall>st n. 0 < n \<longrightarrow> 0 \<le> fst (randInt63n L st n) \<and> fst (randInt63n L st n) < n)"

definition bigOlNum :: int where
  "bigOlNum = 100000"

subsection \<open>Names\<close>

text \<open>\<open>strconv.Itoa\<close>: the decimal digits, with a minus sign for a negative number.\<close>

definition digit :: "nat \<Rightarrow> char" where
  "digit d = ''0123456789'' ! d"

fun digits :: "nat \<Rightarrow> string" where
  "digits n = (if n < 10 then [digit n] else digits (n div 10) @ [digit (n mod 10)])"

declare digits.simps [simp del]

definition Itoa :: "int \<Rightarrow> string" where
  "Itoa i = (if i < 0 then CHR ''-'' # digits (nat (- i)) else digits (nat i))"

fun stringifyBlocks :: "block list \<Rightarrow> string" where
  "stringifyBlocks [] = []"
| "stringifyBlocks [blk] = Itoa (Nonce blk)"
| "stringifyBlocks (blk # rest) = Itoa (Nonce blk) @ CHR ''-'' # stringifyBlocks rest"

subsection \<open>Tipsets\<close>

definition NewTipset :: "('r, 'x) golib_scheme \<Rightarrow> block list \<Rightarrow> error + tipset" where
  "NewTipset L blocks =
     (if length blocks = 0 then Inl EmptyTipset
      else
        let sorted_blocks = sortSlice L blocks in
        case sorted_blocks of
          [] \<Rightarrow> Inl IndexOutOfRange
        | b0 # _ \<Rightarrow>
            let minTicket = fold (\<lambda>block mt. if Seed block < mt then Seed block else mt)
                                 sorted_blocks (Seed b0);
                tsWeight = ParentWeight b0 +
                           (if \<not> Null b0 then int (length sorted_blocks) else 0)
            in Inr (Tipset sorted_blocks (stringifyBlocks sorted_blocks) minTicket False tsWeight))"

definition getHeight :: "tipset \<Rightarrow> error + int" where
  "getHeight ts = (case Blocks ts of [] \<Rightarrow> Inl EmptyHeight | b0 # _ \<Rightarrow> Inr (Height b0))"

definition getParents :: "tipset \<Rightarrow> error + tipset option" where
  "getParents ts = (case Blocks ts of [] \<Rightarrow> Inl EmptyParents | b0 # _ \<Rightarrow> Inr (Parents b0))"


subsection \<open>Grouping blocks and enumerating forks\<close>

text \<open>
  The test \<open>blk1.Height == blk2.Height && blk1.Parents.Name == blk2.Parents.Name\<close> of
  \<open>allTipsets\<close>: \<open>&&\<close> reads the parents only when the heights agree, and reading
  the name of a \<open>nil\<close> parent panics.
\<close>

definition sameGroup :: "block \<Rightarrow> block \<Rightarrow> error + bool" where
  "sameGroup blk1 blk2 =
     (if Height blk1 = Height blk2 then
        (case Parents blk1 of
           None \<Rightarrow> Inl NilDeref
         | Some p1 \<Rightarrow> (case Parents blk2 of
                        None \<Rightarrow> Inl NilDeref
                      | Some p2 \<Rightarrow> Inr (Name p1 = Name p2)))
      else Inr False)"

text \<open>The inner loop of \<open>allTipsets\<close>: the blocks after \<open>blk1\<close> that join its tipset.\<close>

fun laterMembers :: "block \<Rightarrow> block list \<Rightarrow> error + block list" where
  "laterMembers blk1 [] = Inr []"
| "laterMembers blk1 (blk2 # rest) =
     andThen (sameGroup blk1 blk2) (\<lambda>same.
     andThen (laterMembers blk1 rest) (\<lambda>more.
     Inr (if same then blk2 # more else more)))"

fun allTipsets :: "('r, 'x) golib_scheme \<Rightarrow> block list \<Rightarrow> error + tipset list" where
  "allTipsets L [] = Inr []"
| "allTipsets L (blk1 # rest) =
     andThen (laterMembers blk1 rest) (\<lambda>more.
     andThen (NewTipset L (blk1 # more)) (\<lambda>ts.
     andThen (allTipsets L rest) (\<lambda>tss.
     Inr (ts # tss))))"

text \<open>
  \<open>forksFromTipset\<close>: for every index \<open>i\<close> the fork is built from \<open>ts.Blocks[i]\<close>
  followed by \<open>ts.Blocks[i+1:]\<close>.
\<close>

definition forkAt :: "('r, 'x) golib_scheme \<Rightarrow> tipset \<Rightarrow> nat \<Rightarrow> error + tipset" where
  "forkAt L ts i = NewTipset L (Blocks ts ! i # drop (i + 1) (Blocks ts))"

definition forksFromTipset :: "('r, 'x) golib_scheme \<Rightarrow> tipset \<Rightarrow> error + tipset list" where
  "forksFromTipset L ts = mapE (forkAt L ts) [0 ..< length (Blocks ts)]"

subsection \<open>Ancestors\<close>

text \<open>\<open>liveParents\<close>: walk back through null blocks to the first tipset of live blocks.\<close>

fun liveParents :: "block \<Rightarrow> error + tipset" where
  "liveParents (Block n None ow h nl pw sd ih) = Inl NilDeref"
| "liveParents (Block n (Some (Tipset [] nm mt wh w)) ow h nl pw sd ih) = Inl IndexOutOfRange"
| "liveParents (Block n (Some (Tipset (b0 # bs) nm mt wh w)) ow h nl pw sd ih) =
     (if Null b0 then liveParents b0 else Inr (Tipset (b0 # bs) nm mt wh w))"

fun walkBack :: "nat \<Rightarrow> tipset option \<Rightarrow> error + tipset option" where
  "walkBack 0 tipset = Inr tipset"
| "walkBack (Suc n) tipset =
     (case tipset of
        None \<Rightarrow> Inl NilDeref
      | Some ts \<Rightarrow> andThen (getParents ts) (walkBack n))"

definition lookbackTipset :: "tipset option \<Rightarrow> int \<Rightarrow> error + tipset option" where
  "lookbackTipset tipset lbp = walkBack (nat (lbp - 1)) tipset"

subsection \<open>Miners and the chain tracker\<close>

text \<open>
  \<open>PrivateForks\<close> is a Go map; it is an association list with distinct keys here, and
  the order in which a \<open>range\<close> loop visits it is an explicit argument of \<open>Mine\<close>.
  The field \<open>Rand\<close> points to the one generator that all miners of a trial share; its
  state is kept in the state of the trial.
\<close>

record RationalMiner =
  Power :: real
  PrivateForks :: "(string \<times> tipset) list"
  ID :: int
  TotalMiners :: int

record chainTracker =
  liveBlocksByHeight :: "int \<rightharpoonup> block list"
  allBlocks :: "int \<rightharpoonup> block"
  maxHeight :: int
  head :: "tipset option"
  miners :: "RationalMiner list"

definition NewChainTracker :: "RationalMiner list \<Rightarrow> chainTracker" where
  "NewChainTracker ms =
     \<lparr>liveBlocksByHeight = Map.empty, allBlocks = Map.empty, maxHeight = - 1,
      head = None, miners = ms\<rparr>"

definition NewRationalMiner :: "int \<Rightarrow> real \<Rightarrow> int \<Rightarrow> RationalMiner" where
  "NewRationalMiner mid pow totalMiners =
     \<lparr>Power = pow, PrivateForks = [], ID = mid, TotalMiners = totalMiners\<rparr>"

subsection \<open>Head selection\<close>

definition markInHead :: "block \<Rightarrow> block" where
  "markInHead b =
     Block (Nonce b) (Parents b) (Owner b) (Height b) (Null b) (ParentWeight b) (Seed b) True"

definition markHead :: "tipset \<Rightarrow> tipset" where
  "markHead ts = Tipset (map markInHead (Blocks ts)) (Name ts) (MinTicket ts) True (Weight ts)"

text \<open>
  The loop of \<open>setHead\<close>. \<open>candidateHead\<close> starts as the pointer \<open>ct.head\<close> and is
  only ever assigned a tipset that \<open>allTipsets\<close> has just allocated, so the final test
  \<open>candidateHead != ct.head\<close> holds exactly when the loop has assigned it: the candidate
  is \<open>None\<close> while it still is \<open>ct.head\<close>, and \<open>Some ts\<close> after an assignment.
\<close>

definition currentCandidate :: "tipset option \<Rightarrow> tipset option \<Rightarrow> tipset option" where
  "currentCandidate hd0 cand = (case cand of Some ts \<Rightarrow> Some ts | None \<Rightarrow> hd0)"

definition headStep :: "tipset option \<Rightarrow> tipset option \<Rightarrow> tipset \<Rightarrow> error + tipset option" where
  "headStep hd0 cand ts =
     (case currentCandidate hd0 cand of
        None \<Rightarrow> Inl NilDeref
      | Some candidateHead \<Rightarrow>
          if Weight ts > Weight candidateHead then Inr (Some ts)
          else if Weight ts = Weight candidateHead then
            (if MinTicket ts < MinTicket candidateHead then Inr (Some ts) else Inr cand)
          else Inr cand)"

definition setHead ::
  "('r, 'x) golib_scheme \<Rightarrow> chainTracker \<Rightarrow> block list \<Rightarrow> error + (chainTracker \<times> block list)"
where
  "setHead L ct blocks =
     andThen (allTipsets L blocks) (\<lambda>tss.
     andThen (foldE (headStep (head ct)) tss None) (\<lambda>cand.
       case cand of
         None \<Rightarrow> Inr (ct, blocks)
       | Some ts \<Rightarrow>
           Inr (ct\<lparr>head := Some (markHead ts)\<rparr>,
                map (\<lambda>b. if b \<in> set (Blocks ts) then markInHead b else b) blocks)))"


subsection \<open>Tickets and block generation\<close>

text \<open>
  \<open>generateTicket\<close> seeds the shared generator with \<open>minTicket + uint64(m.ID)\<close> and
  draws one number below \<open>bigOlNum\<close>; it returns the ticket and the generator's state.
\<close>

definition generateTicket ::
  "('r, 'x) golib_scheme \<Rightarrow> RationalMiner \<Rightarrow> 64 word \<Rightarrow> 64 word \<times> 'r"
where
  "generateTicket L m minTicket =
     (let seed = minTicket + word_of_int (ID m);
          (v, st) = randInt63n L (randSeed L seed) bigOlNum
      in (word_of_int v, st))"

definition isWinningTicket :: "64 word \<Rightarrow> real \<Rightarrow> bool" where
  "isWinningTicket ticket pow = (real (unat ticket) < real_of_int bigOlNum * pow)"

text \<open>
  \<open>generateBlock\<close> takes the value of the global counter \<open>uniqueID\<close> and returns the
  block, the counter after \<open>getUniqueID\<close> and the state of the generator.
\<close>

definition generateBlock ::
  "('r, 'x) golib_scheme \<Rightarrow> RationalMiner \<Rightarrow> tipset \<Rightarrow> int \<Rightarrow> int \<Rightarrow> error + (block \<times> int \<times> 'r)"
where
  "generateBlock L m parents lbp uid =
     andThen (lookbackTipset (Some parents) lbp) (\<lambda>lb.
     andThen (case lb of None \<Rightarrow> Inl NilDeref | Some t \<Rightarrow> Inr (MinTicket t)) (\<lambda>lotteryTicket.
     andThen (lookbackTipset (Some parents) 1) (\<lambda>lb1.
     andThen (case lb1 of None \<Rightarrow> Inl NilDeref | Some t \<Rightarrow> Inr (MinTicket t)) (\<lambda>lastTicket.
     andThen (case Blocks parents of
                [] \<Rightarrow> Inl IndexOutOfRange
              | b0 # _ \<Rightarrow> if Null b0 then liveParents b0 else Inr parents) (\<lambda>livePs.
       let (t, st1) = generateTicket L m lastTicket in
       andThen (getHeight parents) (\<lambda>h.
         let (electionProof, st2) = generateTicket L m lotteryTicket in
         Inr (Block uid (Some parents) (ID m) (h + 1)
                    (\<not> isWinningTicket electionProof (Power m))
                    (Weight livePs) t False,
              uid + 1, st2)))))))"

definition ConsiderAllForks :: "RationalMiner \<Rightarrow> tipset list list \<Rightarrow> RationalMiner" where
  "ConsiderAllForks m atsforks =
     m\<lparr>PrivateForks := fold (\<lambda>ts pf. AList.update (Name ts) ts pf) (concat atsforks)
                             (PrivateForks m)\<rparr>"

subsection \<open>Mining\<close>

text \<open>
  The variables of the loop of \<open>Mine\<close>, with the state it writes: the block table of
  the chain tracker, the counter \<open>uniqueID\<close> and the generator.
\<close>

record 'r mineVars =
  nullBlocks :: "block list"
  maxWeight :: int
  bestBlock :: "block option"
  mct :: chainTracker
  muid :: int
  mrnd :: 'r

definition mineStep ::
  "('r, 'x) golib_scheme \<Rightarrow> RationalMiner \<Rightarrow> int \<Rightarrow> 'r mineVars \<Rightarrow> string \<times> tipset
     \<Rightarrow> error + 'r mineVars"
where
  "mineStep L m lbp v kv =
     andThen (generateBlock L m (snd kv) lbp (muid v)) (\<lambda>(blk, uid, st).
       let v1 = v\<lparr>muid := uid, mrnd := st\<rparr> in
       if \<not> Null blk \<and> ParentWeight blk > maxWeight v then
         Inr (v1\<lparr>bestBlock := Some blk, maxWeight := ParentWeight blk\<rparr>)
       else if Null blk \<and> bestBlock v = None then
         Inr (v1\<lparr>nullBlocks := nullBlocks v @ [blk],
                 mct := (mct v)\<lparr>allBlocks := (allBlocks (mct v))(Nonce blk \<mapsto> blk)\<rparr>\<rparr>)
       else Inr v1)"

definition extendNull ::
  "('r, 'x) golib_scheme \<Rightarrow> (string \<times> tipset) list \<Rightarrow> block \<Rightarrow> error + (string \<times> tipset) list"
where
  "extendNull L pf nblk =
     andThen (case Parents nblk of None \<Rightarrow> Inl NilDeref | Some p \<Rightarrow> Inr (Name p)) (\<lambda>pname.
     andThen (NewTipset L [nblk]) (\<lambda>nullTipset.
     Inr (AList.update (Name nullTipset) nullTipset (AList.delete pname pf))))"

text \<open>
  \<open>Mine\<close>. The argument \<open>visit\<close> gives the order in which the \<open>range\<close> loop visits
  the entries of \<open>PrivateForks\<close>, which Go leaves unspecified. The result is the miner,
  the chain tracker, the counter, the generator and the block returned (\<open>None\<close> for
  \<open>nil\<close>).
\<close>

definition Mine ::
  "('r, 'x) golib_scheme \<Rightarrow> ((string \<times> tipset) list \<Rightarrow> (string \<times> tipset) list)
     \<Rightarrow> chainTracker \<Rightarrow> int \<Rightarrow> 'r \<Rightarrow> RationalMiner \<Rightarrow> tipset list list \<Rightarrow> int
     \<Rightarrow> error + (RationalMiner \<times> chainTracker \<times> int \<times> 'r \<times> block option)"
where
  "Mine L visit ct uid st m atsforks lbp =
     (let m1 = ConsiderAllForks m atsforks in
      andThen (foldE (mineStep L m1 lbp) (visit (PrivateForks m1))
                 \<lparr>nullBlocks = [], maxWeight = 0, bestBlock = None,
                  mct = ct, muid = uid, mrnd = st\<rparr>) (\<lambda>v.
        case bestBlock v of
          Some b \<Rightarrow> Inr (m1\<lparr>PrivateForks := []\<rparr>, mct v, muid v, mrnd v, Some b)
        | None \<Rightarrow>
            andThen (foldE (extendNull L) (nullBlocks v) (PrivateForks m1)) (\<lambda>pf.
              Inr (m1\<lparr>PrivateForks := pf\<rparr>, mct v, muid v, mrnd v, None))))"

subsection \<open>The simulation\<close>

definition randInt :: "int \<Rightarrow> int \<Rightarrow> error + int" where
  "randInt limit drawn = (if limit \<le> 0 then Inl BadLimit else Inr drawn)"

text \<open>
  \<open>makeGen\<close>: \<open>genChain i\<close> is the value of \<open>gen\<close> and of \<open>uniqueID\<close> after \<open>i\<close>
  iterations of the loop; \<open>drawn i\<close> is what \<open>crypto/rand\<close> returns in iteration \<open>i\<close>.
\<close>

fun genChain ::
  "('r, 'x) golib_scheme \<Rightarrow> int \<Rightarrow> (nat \<Rightarrow> int) \<Rightarrow> int \<Rightarrow> nat \<Rightarrow> error + (tipset option \<times> int)"
where
  "genChain L totalMiners drawn uid 0 = Inr (None, uid)"
| "genChain L totalMiners drawn uid (Suc i) =
     andThen (genChain L totalMiners drawn uid i) (\<lambda>(gen, u).
     andThen (randInt (bigOlNum * totalMiners) (drawn i)) (\<lambda>sd.
     andThen (NewTipset L [Block u gen (- 1) 0 False 0 (word_of_int sd) True]) (\<lambda>ts.
     Inr (Some ts, u + 1))))"

definition makeGen ::
  "('r, 'x) golib_scheme \<Rightarrow> int \<Rightarrow> int \<Rightarrow> (nat \<Rightarrow> int) \<Rightarrow> int \<Rightarrow> error + (block \<times> int)"
where
  "makeGen L lbp totalMiners drawn uid =
     andThen (genChain L totalMiners drawn uid (nat lbp)) (\<lambda>(gen, u).
       case gen of
         None \<Rightarrow> Inl NilDeref
       | Some ts \<Rightarrow> (case Blocks ts of [] \<Rightarrow> Inl IndexOutOfRange | b # _ \<Rightarrow> Inr (b, u)))"

text \<open>
  The variables of \<open>runSim\<close> that live across rounds, with the global counter and the
  shared generator. The local slice \<open>miners\<close> is the slice held by the chain tracker.
\<close>

record 'r simState =
  ct :: chainTracker
  blocks :: "block list"
  currentHeight :: int
  uniqueID :: int
  rnd :: 'r

text \<open>The loop over the miners in a round: miner \<open>i\<close> mines and its block is collected.\<close>

definition mineOne ::
  "('r, 'x) golib_scheme \<Rightarrow> (nat \<Rightarrow> (string \<times> tipset) list \<Rightarrow> (string \<times> tipset) list)
     \<Rightarrow> tipset list list \<Rightarrow> int \<Rightarrow> 'r simState \<Rightarrow> nat \<Rightarrow> error + 'r simState"
where
  "mineOne L visit atsforks lbp s i =
     andThen (Mine L (visit i) (ct s) (uniqueID s) (rnd s) (miners (ct s) ! i) atsforks lbp)
       (\<lambda>(m', ct', uid', st', blk).
          Inr (s\<lparr>ct := ct'\<lparr>miners := (miners ct')[i := m']\<rparr>,
                 uniqueID := uid', rnd := st',
                 blocks := (case blk of None \<Rightarrow> blocks s | Some b \<Rightarrow> blocks s @ [b])\<rparr>))"

text \<open>
  One round of \<open>runSim\<close>. While the miners run, the field \<open>blocks\<close> of the state holds
  \<open>newBlocks\<close>, which is the next round's \<open>blocks\<close>.
\<close>

definition roundStep ::
  "('r, 'x) golib_scheme \<Rightarrow> (nat \<Rightarrow> nat \<Rightarrow> (string \<times> tipset) list \<Rightarrow> (string \<times> tipset) list)
     \<Rightarrow> int \<Rightarrow> nat \<Rightarrow> 'r simState \<Rightarrow> error + 'r simState"
where
  "roundStep L visit lbp rd s =
     andThen (setHead L (ct s) (blocks s)) (\<lambda>(ct1, blks).
       let ct2 = ct1\<lparr>allBlocks := fold (\<lambda>blk tab. tab(Nonce blk \<mapsto> blk)) blks (allBlocks ct1)\<rparr>;
           cur = (if length blks > 0 then Height (hd blks) else currentHeight s);
           ct3 = (if length blks > 0
                  then ct2\<lparr>liveBlocksByHeight := (liveBlocksByHeight ct2)(cur \<mapsto> blks)\<rparr>
                  else ct2)
       in
       if list_ex (\<lambda>blk. cur \<noteq> Height blk) blks then Inl HeightMismatch
       else
         andThen (allTipsets L blks) (\<lambda>ats.
         andThen (mapE (forksFromTipset L) ats) (\<lambda>atsforks.
           foldE (mineOne L (visit rd) atsforks lbp) [0 ..< length (miners ct3)]
             (s\<lparr>ct := ct3, blocks := [], currentHeight := cur\<rparr>))))"

text \<open>The state after the first \<open>n\<close> rounds.\<close>

fun runRounds ::
  "('r, 'x) golib_scheme \<Rightarrow> (nat \<Rightarrow> nat \<Rightarrow> (string \<times> tipset) list \<Rightarrow> (string \<times> tipset) list)
     \<Rightarrow> int \<Rightarrow> nat \<Rightarrow> 'r simState \<Rightarrow> error + 'r simState"
where
  "runRounds L visit lbp 0 s = Inr s"
| "runRounds L visit lbp (Suc n) s =
     andThen (runRounds L visit lbp n s) (roundStep L visit lbp n)"

text \<open>
  The part of \<open>runSim\<close> before the loop. \<open>seedDrawn\<close> is the trial's seed and
  \<open>drawn\<close> the genesis seeds, both returned by \<open>crypto/rand\<close>.
\<close>

definition initSim ::
  "('r, 'x) golib_scheme \<Rightarrow> int \<Rightarrow> (nat \<Rightarrow> int) \<Rightarrow> int \<Rightarrow> int \<Rightarrow> error + 'r simState"
where
  "initSim L seedDrawn drawn totalMiners lbp =
     andThen (randInt (2 ^ 62) seedDrawn) (\<lambda>seed.
       if totalMiners < 0 then Inl BadLength
       else
         andThen (makeGen L lbp totalMiners drawn 0) (\<lambda>(gen, uid).
         andThen (NewTipset L [gen]) (\<lambda>h.
           Inr \<lparr>ct = (NewChainTracker
                       (map (\<lambda>m. NewRationalMiner (int m) (1 / real_of_int totalMiners) totalMiners)
                            [0 ..< nat totalMiners]))\<lparr>head := Some h\<rparr>,
                blocks = [gen], currentHeight = 0, uniqueID = uid,
                rnd = randSeed L (word_of_int seed)\<rparr>)))"

definition runSim ::
  "('r, 'x) golib_scheme \<Rightarrow> int \<Rightarrow> (nat \<Rightarrow> int)
     \<Rightarrow> (nat \<Rightarrow> nat \<Rightarrow> (string \<times> tipset) list \<Rightarrow> (string \<times> tipset) list)
     \<Rightarrow> int \<Rightarrow> int \<Rightarrow> int \<Rightarrow> error + chainTracker"
where
  "runSim L seedDrawn drawn visit totalMiners roundNum lbp =
     andThen (initSim L seedDrawn drawn totalMiners lbp) (\<lambda>s0.
     andThen (runRounds L visit lbp (nat roundNum) s0) (\<lambda>s.
     Inr ((ct s)\<lparr>maxHeight := roundNum - 1\<rparr>)))"

text \<open>
  \<open>main\<close>, without the flags and the output: the check of the trial count, then the
  trials. Each trial has its own draws from \<open>crypto/rand\<close> and its own visiting orders.
  The trials are goroutines in the program; they are taken one after the other here,
  each with its own counter, and a panic in one of them ends the program.
\<close>

definition mainSim ::
  "('r, 'x) golib_scheme \<Rightarrow> (nat \<Rightarrow> int) \<Rightarrow> (nat \<Rightarrow> nat \<Rightarrow> int)
     \<Rightarrow> (nat \<Rightarrow> nat \<Rightarrow> nat \<Rightarrow> (string \<times> tipset) list \<Rightarrow> (string \<times> tipset) list)
     \<Rightarrow> int \<Rightarrow> int \<Rightarrow> int \<Rightarrow> int \<Rightarrow> error + chainTracker list"
where
  "mainSim L seeds drawn visit lbp roundNum totalMiners trials =
     (if trials \<le> 0 then Inl NoTrials
      else mapE (\<lambda>n. runSim L (seeds n) (drawn n) (visit n) totalMiners roundNum lbp)
                [0 ..< nat trials])"


section \<open>Sample data\<close>

text \<open>
  A concrete library for running the model: insertion sort by seed, and a generator
  whose state is a counter.
\<close>

definition exLib :: "(64 word) golib" where
  "exLib = \<lparr>sortSlice = sort_key Seed, randSeed = (\<lambda>w. w),
            randInt63n = (\<lambda>st n. (uint st mod n, st + 1))\<rparr>"

definition exGenesis :: tipset where
  "exGenesis = Tipset [Block 0 None (- 1) 0 False 0 7 True] ''0'' 7 False 1"

definition exBlkA :: block where
  "exBlkA = Block 1 (Some exGenesis) 0 1 False 1 9 False"

definition exBlkB :: block where
  "exBlkB = Block 2 (Some exGenesis) 1 1 False 1 5 False"

definition exTipset :: tipset where
  "exTipset = Tipset [exBlkB, exBlkA] ''2-1'' 5 False 3"

text \<open>A block of another height, whose parent is the tipset of \<open>exBlkA\<close> alone.\<close>

definition exBlkHigh :: block where
  "exBlkHigh = Block 3 (Some (Tipset [exBlkA] ''1'' 9 False 2)) 0 2 False 2 4 False"

text \<open>Draws of \<open>crypto/rand\<close> and visiting orders for sample runs.\<close>

definition exSeeds :: "nat \<Rightarrow> int" where
  "exSeeds n = 5"

definition exDrawn :: "nat \<Rightarrow> int" where
  "exDrawn i = 7"


definition exVisit :: "nat \<Rightarrow> nat \<Rightarrow> (string \<times> tipset) list \<Rightarrow> (string \<times> tipset) list" where
  "exVisit rd i kvs = kvs"

definition exVisits ::
  "nat \<Rightarrow> nat \<Rightarrow> nat \<Rightarrow> (string \<times> tipset) list \<Rightarrow> (string \<times> tipset) list" where
  "exVisits n = exVisit"

definition exDraws :: "nat \<Rightarrow> nat \<Rightarrow> int" where
  "exDraws n = exDrawn"

text \<open>The genesis block of the sample runs, and a trial's chain tracker before round 0.\<close>

definition exGen :: block where
  "exGen = Block 0 None (- 1) 0 False 0 7 True"

definition exIdleTracker :: chainTracker where
  "exIdleTracker =
     \<lparr>liveBlocksByHeight = Map.empty, allBlocks = Map.empty, maxHeight = - 1,
      head = Some exGenesis,
      miners = [\<lparr>Power = 1, PrivateForks = [], ID = 0, TotalMiners = 1\<rparr>]\<rparr>"

subsection \<open>Predicates of the properties\<close>

text \<open>
  The order of head selection: strictly greater weight, or equal weight and strictly
  smaller \<open>MinTicket\<close>.
\<close>

definition heavier :: "tipset \<Rightarrow> tipset \<Rightarrow> bool" where
  "heavier ts cand =
     (Weight ts > Weight cand \<or> (Weight ts = Weight cand \<and> MinTicket ts < MinTicket cand))"

text \<open>The state of the sample trial before and after round 0.\<close>

definition exState0 :: "(64 word) simState" where
  "exState0 = \<lparr>ct = exIdleTracker, blocks = [exGen], currentHeight = 0, uniqueID = 1, rnd = 5\<rparr>"

definition exChild :: block where
  "exChild = Block 1 (Some exGenesis) 0 1 False 1 7 False"

definition exState1 :: "(64 word) simState" where
  "exState1 =
     \<lparr>ct = exIdleTracker\<lparr>liveBlocksByHeight := [0 \<mapsto> [exGen]], allBlocks := [0 \<mapsto> exGen]\<rparr>,
      blocks = [exChild], currentHeight = 0, uniqueID = 2, rnd = 8\<rparr>"

text \<open>The tipset that \<open>candidateHead\<close> points to, for the head \<open>h\<close>.\<close>

definition candOf :: "tipset \<Rightarrow> tipset option \<Rightarrow> tipset" where
  "candOf h c = (case c of None \<Rightarrow> h | Some t \<Rightarrow> t)"

text \<open>A \<open>range\<close> loop over a map visits every entry once, in some order.\<close>

definition visit_ok :: "((string \<times> tipset) list \<Rightarrow> (string \<times> tipset) list) \<Rightarrow> bool" where
  "visit_ok v = (\<forall>kvs. mset (v kvs) = mset kvs)"

text \<open>
  The genesis block that \<open>makeGen\<close> builds for a lookback of 1 from the drawn seed
  \<open>sd\<close>, and the tipset of that block alone.
\<close>

definition genesisBlock :: "int \<Rightarrow> block" where
  "genesisBlock sd = Block 0 None (- 1) 0 False 0 (word_of_int sd) True"

definition genesisTipset :: "int \<Rightarrow> tipset" where
  "genesisTipset sd = Tipset [genesisBlock sd] ''0'' (word_of_int sd) False 1"



text \<open>The entry of a block id in the block table of a finished trial.\<close>

definition tableEntry :: "error + chainTracker \<Rightarrow> int \<Rightarrow> block option" where
  "tableEntry r k = (case r of Inl e \<Rightarrow> None | Inr c \<Rightarrow> allBlocks c k)"










text \<open>
  A property of a block and of every block and tipset behind it: \<open>P\<close> holds of every
  block and \<open>Q\<close> of every tipset that is reached through \<open>Parents\<close> and \<open>Blocks\<close>.
\<close>

fun everyBlock :: "(block \<Rightarrow> bool) \<Rightarrow> (tipset \<Rightarrow> bool) \<Rightarrow> block \<Rightarrow> bool"
and everyTipset :: "(block \<Rightarrow> bool) \<Rightarrow> (tipset \<Rightarrow> bool) \<Rightarrow> tipset \<Rightarrow> bool" where
  "everyBlock P Q (Block n p ow h nl pw sd ih) =
     (P (Block n p ow h nl pw sd ih) \<and> (case p of None \<Rightarrow> True | Some t \<Rightarrow> everyTipset P Q t))"
| "everyTipset P Q (Tipset bs nm mt wh w) =
     (Q (Tipset bs nm mt wh w) \<and> list_all (everyBlock P Q) bs)"

text \<open>
  The height rule: a genesis block (owner \<open>-1\<close>) has height 0, any other block has a
  parent tipset and is one higher than it (\<open>getHeight\<close> reads the first block).
\<close>

definition heightConsistent :: "block \<Rightarrow> bool" where
  "heightConsistent b =
     (if Owner b = - 1 then Height b = 0
      else (case Parents b of
              None \<Rightarrow> False
            | Some p \<Rightarrow> (case Blocks p of [] \<Rightarrow> False | b0 # _ \<Rightarrow> Height b = Height b0 + 1)))"

text \<open>
  The weight rule: a tipset has a block; if one of its blocks is null it has one block;
  its weight is the parent weight of its first block, plus the number of its blocks
  unless they are all null.
\<close>

definition weightConsistent :: "tipset \<Rightarrow> bool" where
  "weightConsistent t =
     (Blocks t \<noteq> [] \<and>
      (if list_ex Null (Blocks t) then length (Blocks t) = 1 else True) \<and>
      Weight t = ParentWeight (hd (Blocks t)) +
                 (if list_all Null (Blocks t) then 0 else int (length (Blocks t))))"

text \<open>
  Both rules, and parent weights that are not negative, for a block or a tipset and
  everything behind it.
\<close>

definition wfBlock :: "block \<Rightarrow> bool" where
  "wfBlock = everyBlock (\<lambda>b. heightConsistent b \<and> 0 \<le> ParentWeight b) weightConsistent"

definition wfTipset :: "tipset \<Rightarrow> bool" where
  "wfTipset = everyTipset (\<lambda>b. heightConsistent b \<and> 0 \<le> ParentWeight b) weightConsistent"

text \<open>
  The invariant of a trial: the rules hold for every block of the tables and of the
  round, for the head and for every private fork; no miner has the owner id of genesis;
  the blocks of a round are not null.
\<close>

definition minerOk :: "RationalMiner \<Rightarrow> bool" where
  "minerOk m = (ID m \<noteq> - 1 \<and> (\<forall>kv \<in> set (PrivateForks m). wfTipset (snd kv)))"

definition trackerOk :: "chainTracker \<Rightarrow> bool" where
  "trackerOk c =
     ((\<forall>k b. allBlocks c k = Some b \<longrightarrow> wfBlock b) \<and>
      (\<forall>h bs. liveBlocksByHeight c h = Some bs \<longrightarrow> (\<forall>b \<in> set bs. wfBlock b)) \<and>
      (\<exists>h. head c = Some h \<and> wfTipset h) \<and>
      (\<forall>m \<in> set (miners c). minerOk m))"

definition simOk :: "'r simState \<Rightarrow> bool" where
  "simOk s = (trackerOk (ct s) \<and> (\<forall>b \<in> set (blocks s). wfBlock b \<and> \<not> Null b))"

definition mineVarsOk :: "'r mineVars \<Rightarrow> bool" where
  "mineVarsOk v =
     ((\<forall>b \<in> set (nullBlocks v). wfBlock b \<and> Null b) \<and>
      (\<forall>b. bestBlock v = Some b \<longrightarrow> wfBlock b \<and> \<not> Null b) \<and>
      trackerOk (mct v))"

text \<open>The height of a block's parent tipset, as \<open>getHeight\<close> reads it.\<close>

definition parentHeight :: "block \<Rightarrow> error + int" where
  "parentHeight b = (case Parents b of None \<Rightarrow> Inl NilDeref | Some p \<Rightarrow> getHeight p)"

text \<open>
  The second genesis block of a trial with a lookback of 2: its parent is the tipset of
  the first genesis block.
\<close>

definition exGenInner :: block where
  "exGenInner = Block 1 (Some exGenesis) (- 1) 0 False 0 7 True"

text \<open>
  A tipset as \<open>NewTipset\<close> names it, from blocks whose ids were issued before the
  counter reached \<open>uid\<close>; and private forks of such tipsets, stored under their names.
\<close>

definition namedTipset :: "int \<Rightarrow> tipset \<Rightarrow> bool" where
  "namedTipset uid t =
     (Name t = stringifyBlocks (Blocks t) \<and> Blocks t \<noteq> [] \<and>
      (\<forall>b \<in> set (Blocks t). 0 \<le> Nonce b \<and> Nonce b < uid))"

definition forksNamed :: "int \<Rightarrow> (string \<times> tipset) list \<Rightarrow> bool" where
  "forksNamed uid pf = (\<forall>kv \<in> set pf. fst kv = Name (snd kv) \<and> namedTipset uid (snd kv))"

text \<open>
  The invariant of a trial on ids and names: every block of the round has an id below
  the counter \<open>uniqueID\<close>, and every miner's private forks are so named.
\<close>

definition idsOk :: "'r simState \<Rightarrow> bool" where
  "idsOk s =
     (0 \<le> uniqueID s \<and>
      (\<forall>b \<in> set (blocks s). 0 \<le> Nonce b \<and> Nonce b < uniqueID s) \<and>
      (\<forall>m \<in> set (miners (ct s)). forksNamed (uniqueID s) (PrivateForks m)))"

section \<open>Properties\<close>

subsection \<open>Panics as values\<close>

lemma andThen_Inl [simp]: "andThen (Inl e) f = Inl e"
  by (simp add: andThen_def)

lemma andThen_Inr [simp]: "andThen (Inr x) f = f x"
  by (simp add: andThen_def)

lemma andThen_eq_Inr: "andThen m f = Inr y \<longleftrightarrow> (\<exists>x. m = Inr x \<and> f x = Inr y)"
  by (cases m) simp_all

lemma mapE_eq_Inr: "mapE f xs = Inr ys \<longleftrightarrow> list_all2 (\<lambda>x y. f x = Inr y) xs ys"
proof (induction xs arbitrary: ys)
  case Nil
  show ?case by auto
next
  case (Cons x xs)
  show ?case
    by (cases ys) (auto simp: andThen_eq_Inr Cons.IH)
qed

lemma mapE_total:
  assumes "\<And>x. x \<in> set xs \<Longrightarrow> \<exists>y. f x = Inr y"
  shows "\<exists>ys. mapE f xs = Inr ys"
  using assms
proof (induction xs)
  case Nil
  show ?case by simp
next
  case (Cons x xs)
  obtain y where y: "f x = Inr y" using Cons.prems by auto
  obtain ys where ys: "mapE f xs = Inr ys" using Cons by auto
  show ?case by (simp add: y ys)
qed

subsection \<open>The library\<close>

lemma sort_ok_mset: "sort_ok L \<Longrightarrow> mset (sortSlice L bs) = mset bs"
  by (simp add: sort_ok_def)

lemma sort_ok_sorted: "sort_ok L \<Longrightarrow> sorted (map Seed (sortSlice L bs))"
  by (simp add: sort_ok_def)

lemma sort_ok_length: "sort_ok L \<Longrightarrow> length (sortSlice L bs) = length bs"
  by (metis sort_ok_mset size_mset)

lemma sort_ok_set: "sort_ok L \<Longrightarrow> set (sortSlice L bs) = set bs"
  by (metis sort_ok_mset set_mset_mset)

lemma sort_ok_Nil: "sort_ok L \<Longrightarrow> sortSlice L bs = [] \<longleftrightarrow> bs = []"
  by (metis sort_ok_length length_0_conv)

lemma exLib_sort_ok: "sort_ok exLib"
  by (simp add: sort_ok_def exLib_def)

lemma exLib_rand_ok: "rand_ok exLib"
  by (simp add: rand_ok_def exLib_def)

text \<open>A list sorted by seed is determined by its members when the seeds are distinct.\<close>

lemma sorted_distinct_perm_eq:
  fixes xs ys :: "block list"
  assumes "mset xs = mset ys" "sorted (map Seed xs)" "sorted (map Seed ys)"
    and "distinct (map Seed ys)"
  shows "xs = ys"
proof -
  have inj: "inj_on Seed (set ys)" using assms(4) by (simp add: distinct_map)
  have "mset (map Seed xs) = mset (map Seed ys)" using assms(1) by (metis mset_map)
  then have "map Seed xs = map Seed ys"
    using assms(2,3) by (metis properties_for_sort sorted_sort_id)
  moreover have "set xs = set ys" using assms(1) by (metis set_mset_mset)
  ultimately show ?thesis using inj
    by (simp add: inj_on_map_eq_map [symmetric])
qed

subsection \<open>Tipset construction\<close>

lemma NewTipset_Nil [simp]: "NewTipset L [] = Inl EmptyTipset"
  by (simp add: NewTipset_def)

lemma NewTipset_total:
  assumes "sort_ok L" and "bs \<noteq> []"
  shows "\<exists>ts. NewTipset L bs = Inr ts"
proof -
  from assms have "sortSlice L bs \<noteq> []" by (simp add: sort_ok_Nil)
  then obtain b0 rest where "sortSlice L bs = b0 # rest" by (cases "sortSlice L bs") auto
  with assms(2) show ?thesis by (simp add: NewTipset_def Let_def)
qed

lemma NewTipset_Blocks:
  assumes "NewTipset L bs = Inr ts"
  shows "Blocks ts = sortSlice L bs" and "bs \<noteq> []" and "Blocks ts \<noteq> []"
    and "Name ts = stringifyBlocks (Blocks ts)" and "\<not> WasHead ts"
    and "Weight ts = ParentWeight (hd (Blocks ts)) +
           (if Null (hd (Blocks ts)) then 0 else int (length (Blocks ts)))"
  using assms
  by (auto simp: NewTipset_def Let_def split: if_splits list.splits)

text \<open>
  C8, as amended. \<open>NewTipset\<close> panics exactly on the empty block list. It compares
  neither the heights nor the parents of the blocks it is given.
\<close>

theorem NewTipset_fails_iff_empty:
  assumes "sort_ok L"
  shows "(\<exists>e. NewTipset L bs = Inl e) \<longleftrightarrow> bs = []"
proof
  assume "\<exists>e. NewTipset L bs = Inl e"
  then obtain e where e: "NewTipset L bs = Inl e" ..
  show "bs = []"
  proof (rule ccontr)
    assume "bs \<noteq> []"
    then obtain ts where "NewTipset L bs = Inr ts"
      using NewTipset_total [OF assms] by blast
    with e show False by simp
  qed
next
  assume "bs = []"
  then show "\<exists>e. NewTipset L bs = Inl e" by simp
qed

theorem NewTipset_fails_iff_empty_witness:
  "sort_ok exLib \<and> \<not> (\<exists>e. NewTipset exLib [exBlkA, exBlkB] = Inl e) \<and>
   (\<exists>e. NewTipset exLib [] = Inl e)"
  using NewTipset_fails_iff_empty [OF exLib_sort_ok, of "[exBlkA, exBlkB]"]
    NewTipset_fails_iff_empty [OF exLib_sort_ok, of "[]"] exLib_sort_ok
  by simp

text \<open>
  C8, as stated, fails: two blocks of different heights and different parents are
  made into a tipset without a panic.
\<close>

theorem NewTipset_inconsistent_counterexample:
  "Height exBlkA \<noteq> Height exBlkHigh \<and> Parents exBlkA \<noteq> Parents exBlkHigh \<and>
   NewTipset exLib [exBlkA, exBlkHigh] =
     Inr (Tipset [exBlkHigh, exBlkA] ''3-1'' 4 False 4)"
  by (simp add: NewTipset_def exLib_def exBlkA_def exBlkHigh_def exGenesis_def Itoa_def
      digits.simps digit_def)

subsection \<open>Fork enumeration\<close>

lemma forkAt_drop:
  assumes "i < length (Blocks ts)"
  shows "forkAt L ts i = NewTipset L (drop i (Blocks ts))"
  using assms by (simp add: forkAt_def Cons_nth_drop_Suc)

lemma forksFromTipset_total:
  assumes "sort_ok L"
  shows "\<exists>forks. forksFromTipset L ts = Inr forks"
  unfolding forksFromTipset_def
proof (rule mapE_total)
  fix i assume "i \<in> set [0 ..< length (Blocks ts)]"
  then have "i < length (Blocks ts)" by simp
  then show "\<exists>y. forkAt L ts i = Inr y"
    using NewTipset_total [OF assms, of "drop i (Blocks ts)"] by (simp add: forkAt_drop)
qed

lemma forksFromTipset_nth:
  assumes "forksFromTipset L ts = Inr forks"
  shows "length forks = length (Blocks ts)"
    and "i < length (Blocks ts) \<Longrightarrow> NewTipset L (drop i (Blocks ts)) = Inr (forks ! i)"
proof -
  from assms have a: "list_all2 (\<lambda>i y. forkAt L ts i = Inr y) [0 ..< length (Blocks ts)] forks"
    by (simp add: forksFromTipset_def mapE_eq_Inr)
  then show len: "length forks = length (Blocks ts)"
    by (auto dest: list_all2_lengthD)
  assume i: "i < length (Blocks ts)"
  with a have "forkAt L ts ([0 ..< length (Blocks ts)] ! i) = Inr (forks ! i)"
    by (simp add: list_all2_conv_all_nth)
  with i show "NewTipset L (drop i (Blocks ts)) = Inr (forks ! i)"
    by (simp add: forkAt_drop)
qed

text \<open>
  C3. For a tipset of \<open>n\<close> blocks, \<open>forksFromTipset\<close> returns \<open>n\<close> forks. The fork
  of index \<open>i\<close> holds exactly the blocks \<open>blocks[i..]\<close>, \<open>n - i\<close> of them, in ascending
  order of seed; when the tipset is sorted with distinct seeds it is the list
  \<open>blocks[i..]\<close> itself.
\<close>

theorem forksFromTipset_suffixes:
  assumes "sort_ok L"
  shows "\<exists>forks. forksFromTipset L ts = Inr forks \<and> length forks = length (Blocks ts) \<and>
           (\<forall>i < length (Blocks ts).
              mset (Blocks (forks ! i)) = mset (drop i (Blocks ts)) \<and>
              length (Blocks (forks ! i)) = length (Blocks ts) - i \<and>
              sorted (map Seed (Blocks (forks ! i))) \<and>
              (sorted (map Seed (Blocks ts)) \<and> distinct (map Seed (Blocks ts))
                 \<longrightarrow> Blocks (forks ! i) = drop i (Blocks ts)))"
proof -
  obtain forks where f: "forksFromTipset L ts = Inr forks"
    using forksFromTipset_total [OF assms] by blast
  have len: "length forks = length (Blocks ts)"
    using forksFromTipset_nth(1) [OF f] .
  have "mset (Blocks (forks ! i)) = mset (drop i (Blocks ts)) \<and>
        length (Blocks (forks ! i)) = length (Blocks ts) - i \<and>
        sorted (map Seed (Blocks (forks ! i))) \<and>
        (sorted (map Seed (Blocks ts)) \<and> distinct (map Seed (Blocks ts))
           \<longrightarrow> Blocks (forks ! i) = drop i (Blocks ts))"
    if i: "i < length (Blocks ts)" for i
  proof -
    have b: "Blocks (forks ! i) = sortSlice L (drop i (Blocks ts))"
      using NewTipset_Blocks(1) [OF forksFromTipset_nth(2) [OF f i]] .
    have m: "mset (Blocks (forks ! i)) = mset (drop i (Blocks ts))"
      by (simp add: b sort_ok_mset [OF assms])
    have l: "length (Blocks (forks ! i)) = length (Blocks ts) - i"
      by (simp add: b sort_ok_length [OF assms])
    have s: "sorted (map Seed (Blocks (forks ! i)))"
      by (simp add: b sort_ok_sorted [OF assms])
    have e: "Blocks (forks ! i) = drop i (Blocks ts)"
      if "sorted (map Seed (Blocks ts))" and "distinct (map Seed (Blocks ts))"
    proof (rule sorted_distinct_perm_eq [OF m s])
      show "sorted (map Seed (drop i (Blocks ts)))"
        using that(1) by (simp add: drop_map [symmetric])
      show "distinct (map Seed (drop i (Blocks ts)))"
        using that(2) by (simp add: drop_map [symmetric])
    qed
    from m l s e show ?thesis by blast
  qed
  with f len show ?thesis by blast
qed

theorem forksFromTipset_suffixes_witness:
  "sort_ok exLib \<and>
   (\<exists>forks. forksFromTipset exLib exTipset = Inr forks \<and> length forks = 2 \<and>
      Blocks (forks ! 0) = [exBlkB, exBlkA] \<and> Blocks (forks ! 1) = [exBlkA])"
proof -
  obtain forks where f: "forksFromTipset exLib exTipset = Inr forks"
    and l: "length forks = length (Blocks exTipset)"
    and a: "\<forall>i < length (Blocks exTipset).
              mset (Blocks (forks ! i)) = mset (drop i (Blocks exTipset)) \<and>
              length (Blocks (forks ! i)) = length (Blocks exTipset) - i \<and>
              sorted (map Seed (Blocks (forks ! i))) \<and>
              (sorted (map Seed (Blocks exTipset)) \<and> distinct (map Seed (Blocks exTipset))
                 \<longrightarrow> Blocks (forks ! i) = drop i (Blocks exTipset))"
    using forksFromTipset_suffixes [OF exLib_sort_ok, of exTipset] by blast
  have sd: "sorted (map Seed (Blocks exTipset)) \<and> distinct (map Seed (Blocks exTipset))"
    by (simp add: exTipset_def exBlkA_def exBlkB_def)
  have n: "length (Blocks exTipset) = 2" by (simp add: exTipset_def)
  have "Blocks (forks ! 0) = drop 0 (Blocks exTipset)" using a sd n by simp
  moreover have "Blocks (forks ! 1) = drop 1 (Blocks exTipset)" using a sd n by simp
  ultimately show ?thesis using f l exLib_sort_ok by (simp add: exTipset_def)
qed

subsection \<open>Grouping into tipsets\<close>

lemma allTipsets_length:
  assumes "allTipsets L blks = Inr tss"
  shows "length tss = length blks"
  using assms
  by (induction blks arbitrary: tss) (auto simp: andThen_eq_Inr)

text \<open>
  C1. \<open>allTipsets\<close> does not return one tipset per group: it returns one tipset per
  block, made of that block and the later blocks of its group. Two blocks of one
  height and one parent give two tipsets, the group and its last block alone.
\<close>

theorem allTipsets_one_group_two_tipsets:
  "Height exBlkA = Height exBlkB \<and> Parents exBlkA = Parents exBlkB \<and>
   allTipsets exLib [exBlkA, exBlkB] =
     Inr [Tipset [exBlkB, exBlkA] ''2-1'' 5 False 3, Tipset [exBlkB] ''2'' 5 False 2]"
  by (simp add: sameGroup_def NewTipset_def exLib_def exBlkA_def exBlkB_def exGenesis_def
      Itoa_def digits.simps digit_def)

subsection \<open>Configuration\<close>

lemma runRounds_no_rounds:
  assumes "roundNum \<le> 0"
  shows "runSim L sd dr v totalMiners roundNum lbp =
         andThen (initSim L sd dr totalMiners lbp) (\<lambda>s0. Inr ((ct s0)\<lparr>maxHeight := roundNum - 1\<rparr>))"
  using assms by (simp add: runSim_def)

text \<open>
  C10, as amended. A trial count \<open>\<le> 0\<close> makes \<open>main\<close> panic before any trial. A
  round count \<open>\<le> 0\<close> is not checked: a trial then builds genesis, runs no round and
  returns its chain tracker with \<open>maxHeight = roundNum - 1\<close>.
\<close>

theorem main_rejects_trials_only:
  "(trials \<le> 0 \<longrightarrow>
      mainSim L seeds drawn visit lbp roundNum totalMiners trials = Inl NoTrials) \<and>
   (roundNum \<le> 0 \<longrightarrow>
      runSim L sd dr v totalMiners roundNum lbp =
      andThen (initSim L sd dr totalMiners lbp)
        (\<lambda>s0. Inr ((ct s0)\<lparr>maxHeight := roundNum - 1\<rparr>)))"
  by (simp add: mainSim_def runSim_def)

theorem main_rejects_trials_only_witness:
  "(0::int) \<le> 0 \<and> mainSim exLib exSeeds exDraws exVisits 1 0 1 0 = Inl NoTrials \<and>
   runSim exLib 5 exDrawn exVisit 1 0 1 =
     andThen (initSim exLib 5 exDrawn 1 1) (\<lambda>s0. Inr ((ct s0)\<lparr>maxHeight := 0 - 1\<rparr>))"
  using main_rejects_trials_only [where trials = 0 and L = exLib and seeds = exSeeds
      and drawn = exDraws and visit = exVisits and lbp = 1 and roundNum = 0 and totalMiners = 1
      and sd = 5 and dr = exDrawn and v = exVisit]
  by simp

lemma initSim_example:
  "initSim exLib 5 exDrawn 1 1 =
     Inr \<lparr>ct = exIdleTracker, blocks = [exGen], currentHeight = 0, uniqueID = 1, rnd = 5\<rparr>"
  by (simp add: initSim_def randInt_def makeGen_def NewTipset_def exLib_def exDrawn_def
      bigOlNum_def NewChainTracker_def NewRationalMiner_def exIdleTracker_def exGenesis_def
      exGen_def Itoa_def digits.simps digit_def)

text \<open>
  C10, as stated, fails: with one trial and a round count of 0 the program does not
  abort; the trial runs and returns its chain tracker.
\<close>

theorem main_zero_rounds_counterexample:
  "mainSim exLib exSeeds exDraws exVisits 1 0 1 1 = Inr [exIdleTracker]"
  by (simp add: mainSim_def runSim_def exSeeds_def exDraws_def initSim_example
      exIdleTracker_def)

subsection \<open>Head selection\<close>

lemma foldE_inv:
  assumes "foldE f xs s = Inr s'" and "P s"
    and "\<And>s x s'. x \<in> set xs \<Longrightarrow> P s \<Longrightarrow> f s x = Inr s' \<Longrightarrow> P s'"
  shows "P s'"
  using assms
proof (induction xs arbitrary: s)
  case Nil
  then show ?case by simp
next
  case (Cons x xs)
  from Cons.prems(1) obtain s1 where s1: "f s x = Inr s1" and r: "foldE f xs s1 = Inr s'"
    by (auto simp: andThen_eq_Inr)
  have p1: "P s1" using Cons.prems(3) [OF _ Cons.prems(2) s1] by simp
  show ?case
  proof (rule Cons.IH [OF r p1])
    fix t y t' assume "y \<in> set xs" "P t" "f t y = Inr t'"
    then show "P t'" using Cons.prems(3) [of y t t'] by simp
  qed
qed

lemma roundStep_example: "roundStep exLib exVisit 1 0 exState0 = Inr exState1"
  by (simp add: roundStep_def setHead_def headStep_def currentCandidate_def exState0_def exState1_def exIdleTracker_def exGen_def
     exGenesis_def exChild_def NewTipset_def exLib_def Itoa_def digits.simps digit_def forksFromTipset_def forkAt_def
     mineOne_def Mine_def ConsiderAllForks_def exVisit_def mineStep_def generateBlock_def lookbackTipset_def
     generateTicket_def bigOlNum_def getHeight_def isWinningTicket_def Let_def)

lemma heavier_irrefl: "\<not> heavier t t"
  by (simp add: heavier_def)

lemma heavier_trans: "heavier a b \<Longrightarrow> heavier b c \<Longrightarrow> heavier a c"
  by (auto simp: heavier_def)


lemma heavier_markHead [simp]: "heavier (markHead ts) h = heavier ts h"
  by (simp add: heavier_def markHead_def)

lemma headStep_Some:
  "headStep (Some h) c ts = Inr (if heavier ts (candOf h c) then Some ts else c)"
  by (cases c) (auto simp: headStep_def currentCandidate_def candOf_def heavier_def)

lemma headLoop_total: "\<exists>c'. foldE (headStep (Some h)) tss c = Inr c'"
  by (induction tss arbitrary: c) (simp_all add: headStep_Some)

lemma headLoop_result:
  assumes "foldE (headStep (Some h)) tss c = Inr c'"
  shows "(c' = c \<or> (\<exists>ts \<in> set tss. c' = Some ts \<and> heavier ts (candOf h c))) \<and>
         (\<forall>ts \<in> set tss. \<not> heavier ts (candOf h c'))"
  using assms
proof (induction tss arbitrary: c)
  case Nil
  then show ?case by simp
next
  case (Cons t tss)
  define c1 where "c1 = (if heavier t (candOf h c) then Some t else c)"
  have hs: "headStep (Some h) c t = Inr c1"
    by (simp add: headStep_Some c1_def)
  from Cons.prems have r: "foldE (headStep (Some h)) tss c1 = Inr c'"
    by (simp only: foldE.simps hs andThen_Inr)
  note ih = Cons.IH [OF r]
  have step: "c1 = c \<and> \<not> heavier t (candOf h c) \<or> c1 = Some t \<and> heavier t (candOf h c)"
    by (auto simp: c1_def)
  have nb1: "\<not> heavier t (candOf h c1)"
    using step by (auto simp: candOf_def heavier_irrefl)
  have up: "candOf h c' = candOf h c1 \<or> heavier (candOf h c') (candOf h c1)"
    using ih by (auto simp: candOf_def)
  have nb: "\<not> heavier t (candOf h c')"
    using up nb1 heavier_trans by metis
  have up1: "candOf h c1 = candOf h c \<or> heavier (candOf h c1) (candOf h c)"
    using step by (auto simp: candOf_def)
  have first: "c' = c \<or> (\<exists>ts \<in> set (t # tss). c' = Some ts \<and> heavier ts (candOf h c))"
  proof (cases "c' = c1")
    case True
    then show ?thesis using step by auto
  next
    case False
    then obtain ts where ts: "ts \<in> set tss" "c' = Some ts" "heavier ts (candOf h c1)"
      using ih by auto
    then have "heavier ts (candOf h c)" using up1 heavier_trans by metis
    with ts show ?thesis by auto
  qed
  from first nb ih show ?case by auto
qed

lemma setHead_cases:
  assumes "setHead L c blks = Inr (c', blks')" and "head c = Some h"
  shows "\<exists>tss. allTipsets L blks = Inr tss \<and>
           ((c' = c \<and> blks' = blks \<and> (\<forall>ts \<in> set tss. \<not> heavier ts h)) \<or>
            (\<exists>ts \<in> set tss. c' = c\<lparr>head := Some (markHead ts)\<rparr> \<and> heavier ts h \<and>
               blks' = map (\<lambda>b. if b \<in> set (Blocks ts) then markInHead b else b) blks))"
proof -
  from assms(1) have "\<exists>tss. allTipsets L blks = Inr tss \<and>
      (\<exists>cand. foldE (headStep (head c)) tss None = Inr cand \<and>
        (case cand of None \<Rightarrow> Inr (c, blks)
         | Some ts \<Rightarrow> Inr (c\<lparr>head := Some (markHead ts)\<rparr>,
                  map (\<lambda>b. if b \<in> set (Blocks ts) then markInHead b else b) blks))
        = (Inr (c', blks') :: error + chainTracker \<times> block list))"
    unfolding setHead_def andThen_eq_Inr .
  then obtain tss cand where tss: "allTipsets L blks = Inr tss"
    and loop: "foldE (headStep (Some h)) tss None = Inr cand"
    and res: "(case cand of None \<Rightarrow> Inr (c, blks)
              | Some ts \<Rightarrow> Inr (c\<lparr>head := Some (markHead ts)\<rparr>,
                  map (\<lambda>b. if b \<in> set (Blocks ts) then markInHead b else b) blks))
              = (Inr (c', blks') :: error + chainTracker \<times> block list)"
    unfolding assms(2) by blast
  note hl = headLoop_result [OF loop]
  show ?thesis
  proof (cases cand)
    case None
    with res hl tss show ?thesis by (auto simp: candOf_def)
  next
    case (Some ts)
    with res hl tss show ?thesis by (auto simp: candOf_def)
  qed
qed

lemma mineStep_mct:
  assumes "mineStep L m lbp v kv = Inr v'"
  shows "head (mct v') = head (mct v) \<and> miners (mct v') = miners (mct v)"
  using assms
  by (auto simp: mineStep_def andThen_eq_Inr Let_def split: if_splits)

lemma Mine_ct:
  assumes "Mine L visit c uid st m atsforks lbp = Inr (m', c', uid', st', res)"
  shows "head c' = head c \<and> miners c' = miners c"
proof -
  from assms obtain v where
    v: "foldE (mineStep L (ConsiderAllForks m atsforks) lbp)
          (visit (PrivateForks (ConsiderAllForks m atsforks)))
          \<lparr>nullBlocks = [], maxWeight = 0, bestBlock = None, mct = c, muid = uid, mrnd = st\<rparr>
        = Inr v" and c': "c' = mct v"
    by (auto simp: Mine_def Let_def andThen_eq_Inr split: option.splits)
  have "head (mct v) = head c \<and> miners (mct v) = miners c"
    by (rule foldE_inv [OF v]) (auto dest: mineStep_mct)
  with c' show ?thesis by simp
qed

lemma mineOne_head:
  assumes "mineOne L visit atsforks lbp s i = Inr s'"
  shows "head (ct s') = head (ct s) \<and> length (miners (ct s')) = length (miners (ct s))"
  using assms
  by (auto simp: mineOne_def andThen_eq_Inr dest: Mine_ct)

lemma roundStep_head:
  assumes "roundStep L visit lbp n s = Inr s'"
  shows "\<exists>ct1 blks. setHead L (ct s) (blocks s) = Inr (ct1, blks) \<and> head (ct s') = head ct1"
proof -
  from assms obtain ct1 blks where sh: "setHead L (ct s) (blocks s) = Inr (ct1, blks)"
    by (auto simp: roundStep_def andThen_eq_Inr)
  from assms sh obtain s1 where
    f: "foldE (mineOne L (visit n) (snd s1) lbp) [0 ..< length (miners ct1)] (fst s1) = Inr s'"
    and h1: "head (ct (fst s1)) = head ct1"
    by (auto simp: roundStep_def andThen_eq_Inr Let_def split: if_splits)
  have "head (ct s') = head (ct (fst s1))"
    by (rule foldE_inv [OF f]) (auto dest: mineOne_head)
  with sh h1 show ?thesis by auto
qed

lemma initSim_head:
  assumes "initSim L sd drawn totalMiners lbp = Inr s0"
  shows "\<exists>h. head (ct s0) = Some h"
  using assms
  by (auto simp: initSim_def andThen_eq_Inr split: if_splits)

lemma roundStep_keeps_head:
  assumes "roundStep L visit lbp n s = Inr s'" and "head (ct s) = Some h"
  shows "\<exists>h'. head (ct s') = Some h'"
proof -
  from roundStep_head [OF assms(1)] obtain ct1 blks where
    sh: "setHead L (ct s) (blocks s) = Inr (ct1, blks)" and h: "head (ct s') = head ct1"
    by blast
  from setHead_cases [OF sh assms(2)] assms(2) h show ?thesis by auto
qed

lemma runRounds_head:
  assumes "runRounds L visit lbp n s0 = Inr s" and "head (ct s0) = Some h0"
  shows "\<exists>h. head (ct s) = Some h"
  using assms
proof (induction n arbitrary: s)
  case 0
  then show ?case by simp
next
  case (Suc n)
  from Suc.prems(1) obtain s1 where s1: "runRounds L visit lbp n s0 = Inr s1"
    and st: "roundStep L visit lbp n s1 = Inr s"
    by (auto simp: andThen_eq_Inr)
  from Suc.IH [OF s1 Suc.prems(2)] obtain h where "head (ct s1) = Some h" ..
  then show ?case using roundStep_keeps_head [OF st] by blast
qed



subsection \<open>One miner, one round\<close>

lemma sort_ok_single: "sort_ok L \<Longrightarrow> sortSlice L [b] = [b]"
  using sort_ok_mset [of L "[b]"] by (simp add: mset_single_iff_right)

lemma visit_ok_single: "visit_ok v \<Longrightarrow> v [kv] = [kv]"
  unfolding visit_ok_def by (metis mset_single_iff_right mset.simps(2) mset_zero_iff)

lemma NewTipset_single:
  assumes "sort_ok L"
  shows "NewTipset L [b] =
         Inr (Tipset [b] (Itoa (Nonce b)) (Seed b) False
                (ParentWeight b + (if Null b then 0 else 1)))"
  by (simp add: NewTipset_def sort_ok_single [OF assms])

lemma ticket_wins:
  assumes "rand_ok L"
  shows "isWinningTicket (fst (generateTicket L m t)) 1"
proof -
  define v where "v = fst (randInt63n L (randSeed L (t + word_of_int (ID m))) bigOlNum)"
  have r: "0 \<le> v \<and> v < bigOlNum"
    using assms by (simp add: rand_ok_def v_def bigOlNum_def)
  then have "uint (word_of_int v :: 64 word) = v"
    by (simp add: bigOlNum_def uint_word_of_int take_bit_int_eq_self)
  then have "int (unat (word_of_int v :: 64 word)) = v"
    by simp
  then have "real (unat (word_of_int v :: 64 word)) < real_of_int bigOlNum"
    using r by (metis of_int_less_iff of_int_of_nat_eq)
  moreover have "fst (generateTicket L m t) = word_of_int v"
    by (simp add: generateTicket_def v_def Let_def split_def)
  ultimately show ?thesis by (simp add: isWinningTicket_def)
qed

lemma Itoa_0: "Itoa 0 = ''0''"
  by (simp add: Itoa_def digits.simps digit_def)

lemma genesisBlock_sel [simp]:
  "Height (genesisBlock sd) = 0" "Nonce (genesisBlock sd) = 0" "\<not> Null (genesisBlock sd)"
  "Parents (genesisBlock sd) = None" "Owner (genesisBlock sd) = - 1"
  by (simp_all add: genesisBlock_def)

lemma initSim_single:
  assumes "sort_ok L"
  shows "initSim L seedDrawn drawn 1 1 =
     Inr \<lparr>ct = \<lparr>liveBlocksByHeight = Map.empty, allBlocks = Map.empty, maxHeight = - 1,
                head = Some (genesisTipset (drawn 0)),
                miners = [\<lparr>Power = 1, PrivateForks = [], ID = 0, TotalMiners = 1\<rparr>]\<rparr>,
          blocks = [genesisBlock (drawn 0)], currentHeight = 0, uniqueID = 1,
          rnd = randSeed L (word_of_int seedDrawn)\<rparr>"
  by (simp add: initSim_def randInt_def makeGen_def NewTipset_single [OF assms] bigOlNum_def
      NewChainTracker_def NewRationalMiner_def genesisTipset_def genesisBlock_def Itoa_0)

lemma generateBlock_genesis:
  assumes "rand_ok L" and "Power m = 1"
  shows "\<exists>b st. generateBlock L m (genesisTipset sd) 1 uid = Inr (b, uid + 1, st) \<and>
           b = Block uid (Some (genesisTipset sd)) (ID m) 1 False 1 (Seed b) False"
  using ticket_wins [OF assms(1), of m "word_of_int sd"] assms(2)
  by (simp add: generateBlock_def lookbackTipset_def genesisTipset_def genesisBlock_def
      getHeight_def split_def Let_def)

text \<open>
  C6. With a lookback of 1 and one miner (whose power is then 1), round 0 of a trial
  produces exactly one block. It is not null, its parent is the genesis tipset, its
  height is 1 and its weight field \<open>ParentWeight\<close> is 1: every ticket is below
  \<open>bigOlNum\<close>, so the election proof always wins.
\<close>

theorem single_miner_round0:
  assumes "sort_ok L" and "rand_ok L" and "visit_ok (visit 0 0)"
  shows "\<exists>s0 s1 b. initSim L seedDrawn drawn 1 1 = Inr s0 \<and>
           head (ct s0) = Some (genesisTipset (drawn 0)) \<and>
           map Power (miners (ct s0)) = [1] \<and>
           runRounds L visit 1 1 s0 = Inr s1 \<and>
           blocks s1 = [b] \<and> \<not> Null b \<and> Parents b = Some (genesisTipset (drawn 0)) \<and>
           ParentWeight b = 1 \<and> Height b = 1 \<and> Owner b = 0 \<and> Nonce b = 1"
proof -
  define g where "g = genesisTipset (drawn 0)"
  define m where "m = \<lparr>Power = 1, PrivateForks = [(''0'', g)], ID = 0, TotalMiners = 1\<rparr>"
  define s0 where "s0 =
     \<lparr>ct = \<lparr>liveBlocksByHeight = Map.empty, allBlocks = Map.empty, maxHeight = - 1,
                head = Some g,
                miners = [\<lparr>Power = 1, PrivateForks = [], ID = 0, TotalMiners = 1\<rparr>]\<rparr>,
          blocks = [genesisBlock (drawn 0)], currentHeight = 0, uniqueID = 1,
          rnd = randSeed L (word_of_int seedDrawn)\<rparr>"
  have i: "initSim L seedDrawn drawn 1 1 = Inr s0"
    by (simp add: initSim_single [OF assms(1)] s0_def g_def)
  obtain b st where gb: "generateBlock L m g 1 1 = Inr (b, 2, st)"
    and b: "b = Block 1 (Some g) (ID m) 1 False 1 (Seed b) False"
    using generateBlock_genesis [OF assms(2), of m "drawn 0" 1] by (auto simp: m_def g_def)
  have nt: "NewTipset L [genesisBlock (drawn 0)] = Inr g"
    by (simp add: NewTipset_single [OF assms(1)] genesisBlock_def genesisTipset_def g_def Itoa_0)
  have ats: "allTipsets L [genesisBlock (drawn 0)] = Inr [g]"
    by (simp add: nt)
  have sh: "setHead L (ct s0) (blocks s0) = Inr (ct s0, blocks s0)"
    by (simp add: setHead_def s0_def ats headStep_def currentCandidate_def g_def
        genesisTipset_def del: allTipsets.simps)
  have fk: "forksFromTipset L g = Inr [g]"
    using nt by (simp add: forksFromTipset_def forkAt_def g_def genesisTipset_def)
  have caf: "ConsiderAllForks \<lparr>Power = 1, PrivateForks = [], ID = 0, TotalMiners = 1\<rparr> [[g]] = m"
    by (simp add: ConsiderAllForks_def m_def g_def genesisTipset_def)
  have vis: "visit 0 0 [(''0'', g)] = [(''0'', g)]"
    by (rule visit_ok_single [OF assms(3)])
  have pw: "ParentWeight b = 1" and nn: "\<not> Null b"
    by (subst b, simp)+
  have pf: "PrivateForks m = [(''0'', g)]"
    by (simp add: m_def)
  have loop: "foldE (mineStep L m 1) (visit 0 0 (PrivateForks m))
                \<lparr>nullBlocks = [], maxWeight = 0, bestBlock = None, mct = c, muid = 1, mrnd = r\<rparr>
              = Inr \<lparr>nullBlocks = [], maxWeight = 1, bestBlock = Some b, mct = c, muid = 2,
                     mrnd = st\<rparr>" for c r
    by (simp add: pf vis mineStep_def gb pw nn)
  have mine: "Mine L (visit 0 0) c 1 r \<lparr>Power = 1, PrivateForks = [], ID = 0, TotalMiners = 1\<rparr>
                [[g]] 1 = Inr (m\<lparr>PrivateForks := []\<rparr>, c, 2, st, Some b)" for c r
    unfolding Mine_def caf Let_def loop by simp
  have r: "roundStep L visit 1 0 s0 =
           Inr (s0\<lparr>ct := (ct s0)\<lparr>allBlocks := [0 \<mapsto> genesisBlock (drawn 0)],
                                  liveBlocksByHeight := [0 \<mapsto> [genesisBlock (drawn 0)]],
                                  miners := [m\<lparr>PrivateForks := []\<rparr>]\<rparr>,
                  blocks := [b], uniqueID := 2, rnd := st\<rparr>)"
    unfolding roundStep_def sh
    by (simp add: s0_def ats fk mineOne_def mine del: allTipsets.simps)
  have "Parents b = Some g" "Height b = 1" "Owner b = 0" "Nonce b = 1"
    by (subst b, simp add: m_def)+
  with i r pw nn show ?thesis
    by (simp add: s0_def g_def)
qed

theorem single_miner_round0_witness:
  "sort_ok exLib \<and> rand_ok exLib \<and> visit_ok (exVisit 0 0) \<and>
   initSim exLib 5 exDrawn 1 1 = Inr exState0 \<and>
   runRounds exLib exVisit 1 1 exState0 = Inr exState1 \<and>
   blocks exState1 = [exChild] \<and> \<not> Null exChild \<and> Parents exChild = Some exGenesis \<and>
   ParentWeight exChild = 1"
proof -
  have v: "visit_ok (exVisit 0 0)"
    by (simp add: visit_ok_def exVisit_def)
  have a: "initSim exLib 5 exDrawn 1 1 = Inr exState0"
    by (simp add: initSim_example exState0_def)
  have b: "runRounds exLib exVisit 1 1 exState0 = Inr exState1"
    by (simp add: roundStep_example)
  from single_miner_round0 [where L = exLib and visit = exVisit and seedDrawn = 5
      and drawn = exDrawn, OF exLib_sort_ok exLib_rand_ok v] a b
    exLib_sort_ok exLib_rand_ok v
  show ?thesis
    by (simp add: exState1_def exChild_def)
qed

subsection \<open>The trial's seed\<close>














subsection \<open>Names are injective\<close>






subsection \<open>Private forks after mining\<close>

lemma generateBlock_fields:
  assumes "generateBlock L m p lbp uid = Inr (blk, uid', st)"
  shows "Parents blk = Some p" and "Nonce blk = uid" and "uid' = uid + 1"
    and "Owner blk = ID m" and "Blocks p \<noteq> []" and "Height blk = Height (hd (Blocks p)) + 1"
    and "\<not> InHead blk"
  using assms
  by (auto simp: generateBlock_def andThen_eq_Inr Let_def split_def getHeight_def
      split: list.splits)







lemma update_keyed:
  assumes "\<forall>(k, t) \<in> set pf. P k t" and "P k v"
  shows "\<forall>(k, t) \<in> set (AList.update k v pf). P k t"
  using assms by (induction pf) (auto split: if_splits)

lemma ConsiderAllForks_entries:
  assumes "\<forall>(k, t) \<in> set (PrivateForks m). P k t"
    and "\<forall>ts \<in> set (concat atsforks). P (Name ts) ts"
  shows "\<forall>(k, t) \<in> set (PrivateForks (ConsiderAllForks m atsforks)). P k t"
proof -
  have "\<forall>(k, t) \<in> set (fold (\<lambda>ts pf. AList.update (Name ts) ts pf) tss pf). P k t"
    if "\<forall>(k, t) \<in> set pf. P k t" and "\<forall>ts \<in> set tss. P (Name ts) ts" for tss pf
    using that
  proof (induction tss arbitrary: pf)
    case Nil
    then show ?case by simp
  next
    case (Cons ts tss)
    have "\<forall>(k, t) \<in> set (AList.update (Name ts) ts pf). P k t"
      using update_keyed [of pf P "Name ts" ts] Cons.prems by simp
    then show ?case using Cons.IH Cons.prems(2) by simp
  qed
  from this [OF assms] show ?thesis by (simp add: ConsiderAllForks_def)
qed

lemma visit_ok_set: "visit_ok v \<Longrightarrow> set (v kvs) = set kvs"
  unfolding visit_ok_def by (metis set_mset_mset)

lemma visit_ok_length: "visit_ok v \<Longrightarrow> length (v kvs) = length kvs"
  unfolding visit_ok_def by (metis size_mset)




subsection \<open>Heights and weights in a trial\<close>

lemma everyBlock_iff:
  "everyBlock P Q b \<longleftrightarrow>
     P b \<and> (case Parents b of None \<Rightarrow> True | Some t \<Rightarrow> everyTipset P Q t)"
  by (cases b) simp

lemma everyTipset_iff:
  "everyTipset P Q t \<longleftrightarrow> Q t \<and> (\<forall>b \<in> set (Blocks t). everyBlock P Q b)"
  by (cases t) (simp add: list_all_iff)

lemma every_mono_aux:
  "((\<forall>b. P b \<longrightarrow> P' b) \<longrightarrow> (\<forall>t. Q t \<longrightarrow> Q' t) \<longrightarrow> everyBlock P Q b \<longrightarrow> everyBlock P' Q' b)"
  "((\<forall>b. P b \<longrightarrow> P' b) \<longrightarrow> (\<forall>t. Q t \<longrightarrow> Q' t) \<longrightarrow> everyTipset P Q t \<longrightarrow> everyTipset P' Q' t)"
  by (induction P Q b and P Q t rule: everyBlock_everyTipset.induct)
    (auto simp: list_all_iff split: option.splits)

lemma everyBlock_mono:
  assumes "everyBlock P Q b" and "\<And>b. P b \<Longrightarrow> P' b" and "\<And>t. Q t \<Longrightarrow> Q' t"
  shows "everyBlock P' Q' b"
  using every_mono_aux(1) [of P P' Q Q' b] assms by blast

lemma everyTipset_mono:
  assumes "everyTipset P Q t" and "\<And>b. P b \<Longrightarrow> P' b" and "\<And>t. Q t \<Longrightarrow> Q' t"
  shows "everyTipset P' Q' t"
  using every_mono_aux(2) [of P P' Q Q' t] assms by blast

lemma wfBlock_iff:
  "wfBlock b \<longleftrightarrow>
     heightConsistent b \<and> 0 \<le> ParentWeight b \<and>
     (case Parents b of None \<Rightarrow> True | Some t \<Rightarrow> wfTipset t)"
  unfolding wfBlock_def wfTipset_def by (subst everyBlock_iff) simp

lemma wfTipset_iff:
  "wfTipset t \<longleftrightarrow> weightConsistent t \<and> (\<forall>b \<in> set (Blocks t). wfBlock b)"
  unfolding wfBlock_def wfTipset_def by (rule everyTipset_iff)

lemma markInHead_sel [simp]:
  "Nonce (markInHead b) = Nonce b" "Parents (markInHead b) = Parents b"
  "Owner (markInHead b) = Owner b" "Height (markInHead b) = Height b"
  "Null (markInHead b) = Null b" "ParentWeight (markInHead b) = ParentWeight b"
  "Seed (markInHead b) = Seed b"
  by (simp_all add: markInHead_def)

lemma markHead_sel [simp]:
  "Blocks (markHead ts) = map markInHead (Blocks ts)" "Name (markHead ts) = Name ts"
  "MinTicket (markHead ts) = MinTicket ts" "Weight (markHead ts) = Weight ts"
  by (simp_all add: markHead_def)

lemma wfBlock_markInHead [simp]: "wfBlock (markInHead b) = wfBlock b"
  by (simp add: wfBlock_iff heightConsistent_def split: option.splits list.splits)

lemma wfTipset_markHead [simp]: "wfTipset (markHead ts) = wfTipset ts"
  by (auto simp: wfTipset_iff weightConsistent_def list_ex_iff list_all_iff hd_map)

lemma NewTipset_weightConsistent:
  assumes "sort_ok L" and "NewTipset L bs = Inr ts"
    and "(\<forall>b \<in> set bs. \<not> Null b) \<or> length bs = 1"
  shows "weightConsistent ts"
proof -
  note nt = NewTipset_Blocks [OF assms(2)]
  have set_eq: "set (Blocks ts) = set bs" and len: "length (Blocks ts) = length bs"
    by (simp_all add: nt(1) sort_ok_set [OF assms(1)] sort_ok_length [OF assms(1)])
  from assms(3) show ?thesis
  proof
    assume live: "\<forall>b \<in> set bs. \<not> Null b"
    then have "\<not> Null (hd (Blocks ts))"
      using nt(3) set_eq by (metis hd_in_set)
    moreover have "\<not> list_ex Null (Blocks ts)" "\<not> list_all Null (Blocks ts)"
      using live set_eq nt(3) by (auto simp: list_ex_iff list_all_iff)
    ultimately show ?thesis
      using nt(3,6) by (simp add: weightConsistent_def)
  next
    assume "length bs = 1"
    then obtain x where x: "Blocks ts = [x]"
      using len by (cases "Blocks ts") auto
    then show ?thesis
      using nt(6) by (simp add: weightConsistent_def)
  qed
qed

lemma NewTipset_wf:
  assumes "sort_ok L" and "NewTipset L bs = Inr ts"
    and "\<forall>b \<in> set bs. wfBlock b"
    and "(\<forall>b \<in> set bs. \<not> Null b) \<or> length bs = 1"
  shows "wfTipset ts" and "set (Blocks ts) = set bs"
proof -
  show s: "set (Blocks ts) = set bs"
    by (simp add: NewTipset_Blocks(1) [OF assms(2)] sort_ok_set [OF assms(1)])
  show "wfTipset ts"
    using NewTipset_weightConsistent [OF assms(1,2,4)] assms(3) s
    by (simp add: wfTipset_iff)
qed

lemma laterMembers_subset:
  assumes "laterMembers blk rest = Inr mem"
  shows "set mem \<subseteq> set rest"
  using assms
  by (induction rest arbitrary: mem) (auto simp: andThen_eq_Inr split: if_splits)

lemma allTipsets_wf:
  assumes "sort_ok L" and "allTipsets L blks = Inr tss"
    and "\<forall>b \<in> set blks. wfBlock b \<and> \<not> Null b"
  shows "\<forall>ts \<in> set tss. wfTipset ts \<and> (\<forall>b \<in> set (Blocks ts). \<not> Null b)"
  using assms(2,3)
proof (induction blks arbitrary: tss)
  case Nil
  then show ?case by simp
next
  case (Cons blk rest)
  from Cons.prems(1) obtain mem ts tss' where
    m: "laterMembers blk rest = Inr mem" and t: "NewTipset L (blk # mem) = Inr ts"
    and r: "allTipsets L rest = Inr tss'" and e: "tss = ts # tss'"
    by (auto simp: andThen_eq_Inr)
  have sub: "set (blk # mem) \<subseteq> set (blk # rest)"
    using laterMembers_subset [OF m] by auto
  have ok: "\<forall>b \<in> set (blk # mem). wfBlock b" and live: "\<forall>b \<in> set (blk # mem). \<not> Null b"
    using sub Cons.prems(2) by auto
  have "wfTipset ts" "set (Blocks ts) = set (blk # mem)"
    using NewTipset_wf [OF assms(1) t ok] live by blast+
  then have "wfTipset ts \<and> (\<forall>b \<in> set (Blocks ts). \<not> Null b)"
    using live by simp
  moreover have "\<forall>ts \<in> set tss'. wfTipset ts \<and> (\<forall>b \<in> set (Blocks ts). \<not> Null b)"
    using Cons.IH [OF r] Cons.prems(2) by simp
  ultimately show ?case using e by simp
qed

lemma forksFromTipset_wf:
  assumes "sort_ok L" and "forksFromTipset L ts = Inr forks"
    and "wfTipset ts" and "\<forall>b \<in> set (Blocks ts). \<not> Null b"
  shows "\<forall>f \<in> set forks. wfTipset f"
proof
  fix f assume "f \<in> set forks"
  then obtain i where i: "i < length forks" "f = forks ! i"
    by (auto simp: in_set_conv_nth)
  note n = forksFromTipset_nth [OF assms(2)]
  have il: "i < length (Blocks ts)" using i(1) n(1) by simp
  have nt: "NewTipset L (drop i (Blocks ts)) = Inr f"
    using n(2) [OF il] i(2) by simp
  have sub: "set (drop i (Blocks ts)) \<subseteq> set (Blocks ts)"
    by (rule set_drop_subset)
  have "\<forall>b \<in> set (drop i (Blocks ts)). wfBlock b"
    using sub assms(3) by (auto simp: wfTipset_iff)
  moreover have "\<forall>b \<in> set (drop i (Blocks ts)). \<not> Null b"
    using sub assms(4) by auto
  ultimately show "wfTipset f"
    using NewTipset_wf(1) [OF assms(1) nt] by blast
qed

lemma liveParents_wf:
  assumes "liveParents b = Inr t" and "wfBlock b"
  shows "wfTipset t \<and> Blocks t \<noteq> [] \<and> \<not> Null (hd (Blocks t))"
  using assms
proof (induction b arbitrary: t rule: liveParents.induct)
  case (1 n ow h nl pw sd ih)
  then show ?case by simp
next
  case (2 n nm mt wh w ow h nl pw sd ih)
  then show ?case by simp
next
  case (3 n b0 bs nm mt wh w ow h nl pw sd ih)
  have p: "wfTipset (Tipset (b0 # bs) nm mt wh w)"
    using "3.prems"(2) by (simp add: wfBlock_iff)
  show ?case
  proof (cases "Null b0")
    case True
    have "wfBlock b0" using p by (simp add: wfTipset_iff)
    then show ?thesis using "3.IH" [OF True] "3.prems"(1) True by simp
  next
    case False
    then show ?thesis using "3.prems"(1) p by auto
  qed
qed

lemma wfTipset_weight_pos:
  assumes "wfTipset t" and "Blocks t \<noteq> []" and "\<not> Null (hd (Blocks t))"
  shows "1 \<le> Weight t"
proof -
  from assms(2) obtain b0 bs where b: "Blocks t = b0 # bs" by (cases "Blocks t") auto
  have "0 \<le> ParentWeight b0"
    using assms(1) b by (simp add: wfTipset_iff wfBlock_iff)
  moreover have "Weight t = ParentWeight b0 + int (length (b0 # bs))"
    using assms(1,3) b by (simp add: wfTipset_iff weightConsistent_def)
  ultimately show ?thesis by simp
qed

lemma generateBlock_weight:
  assumes "generateBlock L m p lbp uid = Inr (blk, uid', st)"
  shows "\<exists>lp. ParentWeight blk = Weight lp \<and>
           (if Null (hd (Blocks p)) then liveParents (hd (Blocks p)) = Inr lp else lp = p)"
  using assms
  by (auto simp: generateBlock_def andThen_eq_Inr Let_def split_def split: list.splits if_splits)

lemma generateBlock_positive:
  assumes "generateBlock L m p lbp uid = Inr (blk, uid', st)" and "wfTipset p"
  shows "1 \<le> ParentWeight blk"
proof -
  note f = generateBlock_fields [OF assms(1)]
  from generateBlock_weight [OF assms(1)] obtain lp where w: "ParentWeight blk = Weight lp"
    and lp: "if Null (hd (Blocks p)) then liveParents (hd (Blocks p)) = Inr lp else lp = p"
    by blast
  have "wfBlock (hd (Blocks p))"
    using assms(2) f(5) by (simp add: wfTipset_iff)
  then have "wfTipset lp \<and> Blocks lp \<noteq> [] \<and> \<not> Null (hd (Blocks lp))"
    using lp liveParents_wf [of "hd (Blocks p)" lp] assms(2) f(5)
    by (cases "Null (hd (Blocks p))") simp_all
  then show ?thesis using wfTipset_weight_pos [of lp] w by simp
qed

lemma generateBlock_wf:
  assumes "generateBlock L m p lbp uid = Inr (blk, uid', st)"
    and "wfTipset p" and "ID m \<noteq> - 1"
  shows "wfBlock blk"
proof -
  note f = generateBlock_fields [OF assms(1)]
  have "heightConsistent blk"
    using f(1,4,5,6) assms(3)
    by (cases "Blocks p") (simp_all add: heightConsistent_def)
  then show ?thesis
    using f(1) assms(2) generateBlock_positive [OF assms(1,2)] by (simp add: wfBlock_iff)
qed

lemma mineStep_ok:
  assumes "mineStep L m lbp v kv = Inr v'" and "wfTipset (snd kv)" and "ID m \<noteq> - 1"
    and "mineVarsOk v"
  shows "mineVarsOk v' \<and> miners (mct v') = miners (mct v)"
proof -
  from assms(1) obtain blk uid st where
    g: "generateBlock L m (snd kv) lbp (muid v) = Inr (blk, uid, st)"
    and v': "v' = (if \<not> Null blk \<and> ParentWeight blk > maxWeight v then
                    v\<lparr>muid := uid, mrnd := st, bestBlock := Some blk,
                      maxWeight := ParentWeight blk\<rparr>
                  else if Null blk \<and> bestBlock v = None then
                    v\<lparr>muid := uid, mrnd := st, nullBlocks := nullBlocks v @ [blk],
                      mct := (mct v)\<lparr>allBlocks := (allBlocks (mct v))(Nonce blk \<mapsto> blk)\<rparr>\<rparr>
                  else v\<lparr>muid := uid, mrnd := st\<rparr>)"
    by (auto simp: mineStep_def andThen_eq_Inr Let_def split: if_splits)
  have wb: "wfBlock blk" by (rule generateBlock_wf [OF g assms(2,3)])
  show ?thesis
    using assms(4) wb unfolding v' by (auto simp: mineVarsOk_def trackerOk_def)
qed

lemma delete_subset: "set (AList.delete k pf) \<subseteq> set pf"
  by (induction pf) auto

lemma extendNull_ok:
  assumes "sort_ok L" and "extendNull L pf nb = Inr pf'" and "wfBlock nb"
    and "\<forall>kv \<in> set pf. wfTipset (snd kv)"
  shows "\<forall>kv \<in> set pf'. wfTipset (snd kv)"
proof -
  from assms(2) obtain pname nt where nt: "NewTipset L [nb] = Inr nt"
    and pf': "pf' = AList.update (Name nt) nt (AList.delete pname pf)"
    by (auto simp: extendNull_def andThen_eq_Inr)
  have w: "wfTipset nt"
    using NewTipset_wf(1) [OF assms(1) nt] assms(3) by simp
  have "\<forall>(k, t) \<in> set (AList.delete pname pf). wfTipset t"
    using assms(4) delete_subset [of pname pf] by fastforce
  from update_keyed [where P = "\<lambda>k t. wfTipset t" and k = "Name nt" and v = nt, OF this] w
  show ?thesis
    unfolding pf' by auto
qed

lemma Mine_ok:
  assumes "sort_ok L" and "visit_ok visit"
    and "Mine L visit c uid st m atsforks lbp = Inr (m', c', uid', st', res)"
    and "trackerOk c" and "minerOk m" and "\<forall>f \<in> set (concat atsforks). wfTipset f"
  shows "minerOk m' \<and> trackerOk c' \<and> miners c' = miners c \<and>
         (\<forall>b. res = Some b \<longrightarrow> wfBlock b \<and> \<not> Null b)"
proof -
  define m1 where "m1 = ConsiderAllForks m atsforks"
  define forks where "forks = PrivateForks m1"
  define v0 :: "'a mineVars" where
    "v0 = \<lparr>nullBlocks = [], maxWeight = 0, bestBlock = None, mct = c, muid = uid, mrnd = st\<rparr>"
  have unf: "Mine L visit c uid st m atsforks lbp =
      andThen (foldE (mineStep L m1 lbp) (visit forks) v0) (\<lambda>v.
        case bestBlock v of
          Some b \<Rightarrow> Inr (m1\<lparr>PrivateForks := []\<rparr>, mct v, muid v, mrnd v, Some b)
        | None \<Rightarrow> andThen (foldE (extendNull L) (nullBlocks v) forks)
                    (\<lambda>pf. Inr (m1\<lparr>PrivateForks := pf\<rparr>, mct v, muid v, mrnd v, None)))"
    unfolding Mine_def Let_def m1_def v0_def forks_def by (rule refl)
  from assms(3) [unfolded unf andThen_eq_Inr] obtain v where
    loop: "foldE (mineStep L m1 lbp) (visit forks) v0 = Inr v"
    and fin: "(case bestBlock v of
                 Some b \<Rightarrow> Inr (m1\<lparr>PrivateForks := []\<rparr>, mct v, muid v, mrnd v, Some b)
               | None \<Rightarrow> andThen (foldE (extendNull L) (nullBlocks v) forks)
                           (\<lambda>pf. Inr (m1\<lparr>PrivateForks := pf\<rparr>, mct v, muid v, mrnd v, None)))
              = Inr (m', c', uid', st', res)"
    by blast
  have id1: "ID m1 = ID m" by (simp add: m1_def ConsiderAllForks_def)
  have idok: "ID m1 \<noteq> - 1" using assms(5) id1 by (simp add: minerOk_def)
  have "\<forall>(k, t) \<in> set (PrivateForks (ConsiderAllForks m atsforks)). wfTipset t"
    by (rule ConsiderAllForks_entries) (use assms(5,6) in \<open>auto simp: minerOk_def\<close>)
  then have fk: "\<forall>kv \<in> set forks. wfTipset (snd kv)"
    by (auto simp: forks_def m1_def)
  have vs: "set (visit forks) = set forks" by (rule visit_ok_set [OF assms(2)])
  have v0ok: "mineVarsOk v0 \<and> miners (mct v0) = miners c"
    using assms(4) by (simp add: mineVarsOk_def v0_def)
  have vok: "mineVarsOk v \<and> miners (mct v) = miners c"
  proof (rule foldE_inv [where P = "\<lambda>s. mineVarsOk s \<and> miners (mct s) = miners c",
        OF loop v0ok])
    fix s x s'
    assume "x \<in> set (visit forks)" "mineVarsOk s \<and> miners (mct s) = miners c"
      "mineStep L m1 lbp s x = Inr s'"
    then show "mineVarsOk s' \<and> miners (mct s') = miners c"
      using mineStep_ok [of L m1 lbp s x s'] fk vs idok by auto
  qed
  show ?thesis
  proof (cases "bestBlock v")
    case (Some b)
    with fin have "m' = m1\<lparr>PrivateForks := []\<rparr>" "c' = mct v" "res = Some b" by auto
    then show ?thesis using vok Some idok by (auto simp: mineVarsOk_def minerOk_def)
  next
    case None
    with fin obtain pf where ext: "foldE (extendNull L) (nullBlocks v) forks = Inr pf"
      and r: "m' = m1\<lparr>PrivateForks := pf\<rparr>" "c' = mct v" "res = None"
      by (auto simp: andThen_eq_Inr)
    have "\<forall>kv \<in> set pf. wfTipset (snd kv)"
    proof (rule foldE_inv [where P = "\<lambda>s. \<forall>kv \<in> set s. wfTipset (snd kv)", OF ext fk])
      fix s x s'
      assume "x \<in> set (nullBlocks v)" "\<forall>kv \<in> set s. wfTipset (snd kv)"
        "extendNull L s x = Inr s'"
      then show "\<forall>kv \<in> set s'. wfTipset (snd kv)"
        using extendNull_ok [OF assms(1), of s x s'] vok by (auto simp: mineVarsOk_def)
    qed
    then show ?thesis using r vok idok by (auto simp: mineVarsOk_def minerOk_def)
  qed
qed

lemma mineOne_ok:
  assumes "sort_ok L" and "visit_ok (visit i)"
    and "mineOne L visit atsforks lbp s i = Inr s'"
    and "simOk s" and "i < length (miners (ct s))"
    and "\<forall>f \<in> set (concat atsforks). wfTipset f"
  shows "simOk s' \<and> length (miners (ct s')) = length (miners (ct s))"
proof -
  from assms(3) obtain m' c' uid' st' res where
    mine: "Mine L (visit i) (ct s) (uniqueID s) (rnd s) (miners (ct s) ! i) atsforks lbp
             = Inr (m', c', uid', st', res)"
    and s': "s' = s\<lparr>ct := c'\<lparr>miners := (miners c')[i := m']\<rparr>, uniqueID := uid', rnd := st',
                   blocks := (case res of None \<Rightarrow> blocks s | Some b \<Rightarrow> blocks s @ [b])\<rparr>"
    by (auto simp: mineOne_def andThen_eq_Inr)
  have tr: "trackerOk (ct s)" and nb: "\<forall>b \<in> set (blocks s). wfBlock b \<and> \<not> Null b"
    using assms(4) by (simp_all add: simOk_def)
  have mo: "minerOk (miners (ct s) ! i)"
    using tr assms(5) by (simp add: trackerOk_def)
  note ok = Mine_ok [OF assms(1,2) mine tr mo assms(6)]
  have "set ((miners c')[i := m']) \<subseteq> insert m' (set (miners c'))"
    by (rule set_update_subset_insert)
  then have "\<forall>m \<in> set ((miners c')[i := m']). minerOk m"
    using ok by (auto simp: trackerOk_def)
  then have "trackerOk (c'\<lparr>miners := (miners c')[i := m']\<rparr>)"
    using ok by (simp add: trackerOk_def)
  moreover have "\<forall>b \<in> set (case res of None \<Rightarrow> blocks s | Some b \<Rightarrow> blocks s @ [b]).
                   wfBlock b \<and> \<not> Null b"
    using nb ok by (cases res) auto
  ultimately show ?thesis
    using ok by (simp add: s' simOk_def)
qed

lemma setHead_ok:
  assumes "sort_ok L" and "setHead L c blks = Inr (c', blks')"
    and "trackerOk c" and "\<forall>b \<in> set blks. wfBlock b \<and> \<not> Null b"
  shows "trackerOk c' \<and> (\<forall>b \<in> set blks'. wfBlock b \<and> \<not> Null b)"
proof -
  from assms(3) obtain h where h: "head c = Some h" by (auto simp: trackerOk_def)
  from setHead_cases [OF assms(2) h] obtain tss where tss: "allTipsets L blks = Inr tss"
    and cs: "(c' = c \<and> blks' = blks \<and> (\<forall>ts \<in> set tss. \<not> heavier ts h)) \<or>
            (\<exists>ts \<in> set tss. c' = c\<lparr>head := Some (markHead ts)\<rparr> \<and> heavier ts h \<and>
               blks' = map (\<lambda>b. if b \<in> set (Blocks ts) then markInHead b else b) blks)"
    by blast
  note w = allTipsets_wf [OF assms(1) tss assms(4)]
  from cs show ?thesis
  proof
    assume "c' = c \<and> blks' = blks \<and> (\<forall>ts \<in> set tss. \<not> heavier ts h)"
    then show ?thesis using assms(3,4) by simp
  next
    assume "\<exists>ts \<in> set tss. c' = c\<lparr>head := Some (markHead ts)\<rparr> \<and> heavier ts h \<and>
               blks' = map (\<lambda>b. if b \<in> set (Blocks ts) then markInHead b else b) blks"
    then obtain ts where ts: "ts \<in> set tss" "c' = c\<lparr>head := Some (markHead ts)\<rparr>"
      "blks' = map (\<lambda>b. if b \<in> set (Blocks ts) then markInHead b else b) blks"
      by blast
    have "wfTipset ts" using w ts(1) by simp
    then have "trackerOk c'"
      using assms(3) by (simp add: ts(2) trackerOk_def)
    moreover have "\<forall>b \<in> set blks'. wfBlock b \<and> \<not> Null b"
      using assms(4) by (auto simp: ts(3))
    ultimately show ?thesis by simp
  qed
qed

lemma fold_table:
  assumes "fold (\<lambda>blk tab. tab(Nonce blk \<mapsto> blk)) blks tab k = Some b"
  shows "b \<in> set blks \<or> tab k = Some b"
  using assms
proof (induction blks arbitrary: tab)
  case Nil
  then show ?case by simp
next
  case (Cons a blks)
  from Cons.prems have "fold (\<lambda>blk tab. tab(Nonce blk \<mapsto> blk)) blks (tab(Nonce a \<mapsto> a)) k = Some b"
    unfolding fold_simps comp_apply .
  from Cons.IH [OF this] show ?case
    by (auto split: if_splits)
qed

lemma roundStep_ok:
  assumes "sort_ok L" and "\<forall>i. visit_ok (visit n i)"
    and "roundStep L visit lbp n s = Inr s'" and "simOk s"
  shows "simOk s'"
proof -
  from assms(3) obtain c1 blks where sh: "setHead L (ct s) (blocks s) = Inr (c1, blks)"
    by (auto simp: roundStep_def andThen_eq_Inr)
  define c2 where
    "c2 = c1\<lparr>allBlocks := fold (\<lambda>blk tab. tab(Nonce blk \<mapsto> blk)) blks (allBlocks c1)\<rparr>"
  define cur where "cur = (if length blks > 0 then Height (hd blks) else currentHeight s)"
  define c3 where
    "c3 = (if length blks > 0
           then c2\<lparr>liveBlocksByHeight := (liveBlocksByHeight c2)(cur \<mapsto> blks)\<rparr> else c2)"
  from assms(3) obtain ats atsforks where ats: "allTipsets L blks = Inr ats"
    and fk: "mapE (forksFromTipset L) ats = Inr atsforks"
    and loop: "foldE (mineOne L (visit n) atsforks lbp) [0 ..< length (miners c3)]
                 (s\<lparr>ct := c3, blocks := [], currentHeight := cur\<rparr>) = Inr s'"
    unfolding roundStep_def sh
    by (auto simp: andThen_eq_Inr Let_def c2_def cur_def c3_def split: if_splits)
  have tr: "trackerOk (ct s)" and nb: "\<forall>b \<in> set (blocks s). wfBlock b \<and> \<not> Null b"
    using assms(4) by (simp_all add: simOk_def)
  note sok = setHead_ok [OF assms(1) sh tr nb]
  have t2: "trackerOk c2"
    using sok fold_table [of blks "allBlocks c1"]
    unfolding c2_def trackerOk_def by fastforce
  have t3: "trackerOk c3"
    using t2 sok unfolding c3_def trackerOk_def by auto
  have aw: "\<forall>ts \<in> set ats. wfTipset ts \<and> (\<forall>b \<in> set (Blocks ts). \<not> Null b)"
    using allTipsets_wf [OF assms(1) ats] sok by blast
  have fw: "\<forall>f \<in> set (concat atsforks). wfTipset f"
  proof
    fix f assume "f \<in> set (concat atsforks)"
    then obtain forks where f: "forks \<in> set atsforks" "f \<in> set forks" by auto
    from fk have "list_all2 (\<lambda>ts y. forksFromTipset L ts = Inr y) ats atsforks"
      by (simp add: mapE_eq_Inr)
    then have l: "length ats = length atsforks"
      and a: "\<And>i. i < length ats \<Longrightarrow> forksFromTipset L (ats ! i) = Inr (atsforks ! i)"
      by (simp_all add: list_all2_conv_all_nth)
    from f(1) obtain i where i: "i < length atsforks" "forks = atsforks ! i"
      by (auto simp: in_set_conv_nth)
    have "ats ! i \<in> set ats" "forksFromTipset L (ats ! i) = Inr forks"
      using i l a [of i] by simp_all
    then obtain ts where "ts \<in> set ats" "forksFromTipset L ts = Inr forks"
      by blast
    then show "wfTipset f"
      using forksFromTipset_wf [OF assms(1), of ts forks] aw f(2) by blast
  qed
  have start: "simOk (s\<lparr>ct := c3, blocks := [], currentHeight := cur\<rparr>) \<and>
               length (miners (ct (s\<lparr>ct := c3, blocks := [], currentHeight := cur\<rparr>)))
                 = length (miners c3)"
    using t3 by (simp add: simOk_def)
  have "simOk s' \<and> length (miners (ct s')) = length (miners c3)"
  proof (rule foldE_inv [where P = "\<lambda>t. simOk t \<and> length (miners (ct t)) = length (miners c3)",
        OF loop start])
    fix t i t'
    assume "i \<in> set [0 ..< length (miners c3)]"
      "simOk t \<and> length (miners (ct t)) = length (miners c3)"
      "mineOne L (visit n) atsforks lbp t i = Inr t'"
    then show "simOk t' \<and> length (miners (ct t')) = length (miners c3)"
      using mineOne_ok [OF assms(1), of "visit n" i atsforks lbp t t'] assms(2) fw by auto
  qed
  then show ?thesis by simp
qed

lemma runRounds_ok:
  assumes "sort_ok L" and "\<forall>rd i. visit_ok (visit rd i)"
    and "runRounds L visit lbp n s0 = Inr s" and "simOk s0"
  shows "simOk s"
  using assms(3)
proof (induction n arbitrary: s)
  case 0
  then show ?case using assms(4) by simp
next
  case (Suc n)
  from Suc.prems obtain s1 where s1: "runRounds L visit lbp n s0 = Inr s1"
    and st: "roundStep L visit lbp n s1 = Inr s"
    by (auto simp: andThen_eq_Inr)
  show ?case
    using roundStep_ok [OF assms(1) _ st Suc.IH [OF s1]] assms(2) by simp
qed

lemma genChain_ok:
  assumes "sort_ok L" and "genChain L totalMiners drawn uid i = Inr (gen, u)"
  shows "case gen of None \<Rightarrow> True
         | Some ts \<Rightarrow> wfTipset ts \<and> (\<forall>b \<in> set (Blocks ts). \<not> Null b)"
  using assms(2)
proof (induction i arbitrary: gen u)
  case 0
  then show ?case by simp
next
  case (Suc i)
  from Suc.prems obtain g0 u0 sd ts where
    p: "genChain L totalMiners drawn uid i = Inr (g0, u0)"
    and t: "NewTipset L [Block u0 g0 (- 1) 0 False 0 (word_of_int sd) True] = Inr ts"
    and e: "gen = Some ts"
    by (auto simp: andThen_eq_Inr)
  have "wfBlock (Block u0 g0 (- 1) 0 False 0 (word_of_int sd) True)"
    using Suc.IH [OF p] by (cases g0) (simp_all add: wfBlock_iff heightConsistent_def)
  then have "wfTipset ts" "set (Blocks ts) = {Block u0 g0 (- 1) 0 False 0 (word_of_int sd) True}"
    using NewTipset_wf [OF assms(1) t] by simp_all
  then show ?case using e by simp
qed

lemma initSim_ok:
  assumes "sort_ok L" and "initSim L seedDrawn drawn totalMiners lbp = Inr s0"
  shows "simOk s0"
proof -
  from assms(2) obtain gen uid h where mg: "makeGen L lbp totalMiners drawn 0 = Inr (gen, uid)"
    and nt: "NewTipset L [gen] = Inr h"
    and s0: "s0 = \<lparr>ct = (NewChainTracker
                       (map (\<lambda>m. NewRationalMiner (int m) (1 / real_of_int totalMiners) totalMiners)
                            [0 ..< nat totalMiners]))\<lparr>head := Some h\<rparr>,
                blocks = [gen], currentHeight = 0, uniqueID = uid,
                rnd = randSeed L (word_of_int seedDrawn)\<rparr>"
    by (auto simp: initSim_def andThen_eq_Inr randInt_def split: if_splits)
  from mg [unfolded makeGen_def andThen_eq_Inr] obtain p where
    gp: "genChain L totalMiners drawn 0 (nat lbp) = Inr p"
    and r: "(case p of (gen', u) \<Rightarrow>
               case gen' of None \<Rightarrow> Inl NilDeref
               | Some ts \<Rightarrow> (case Blocks ts of [] \<Rightarrow> Inl IndexOutOfRange | b # _ \<Rightarrow> Inr (b, u)))
            = Inr (gen, uid)"
    by blast
  obtain g0 u where p: "p = (g0, u)" by (cases p)
  from r obtain ts where g0: "g0 = Some ts" and g: "gen \<in> set (Blocks ts)"
    unfolding p by (cases g0; cases "Blocks (the g0)") auto
  have gc: "genChain L totalMiners drawn 0 (nat lbp) = Inr (Some ts, u)"
    using gp p g0 by simp
  from genChain_ok [OF assms(1) gc] g have gok: "wfBlock gen" "\<not> Null gen"
    by (auto simp: wfTipset_iff)
  then have hok: "wfTipset h"
    using NewTipset_wf(1) [OF assms(1) nt] by simp
  have "minerOk (NewRationalMiner (int m) p totalMiners)" for m p
    by (simp add: minerOk_def NewRationalMiner_def)
  then show ?thesis
    using gok hok by (auto simp: s0 simOk_def trackerOk_def NewChainTracker_def)
qed

lemma trial_ok:
  assumes "sort_ok L" and "\<forall>rd i. visit_ok (visit rd i)"
    and "initSim L seedDrawn drawn totalMiners lbp = Inr s0"
    and "runRounds L visit lbp n s0 = Inr s"
  shows "simOk s"
  by (rule runRounds_ok [OF assms(1,2,4) initSim_ok [OF assms(1,3)]])

text \<open>
  C9, as amended. After any number of rounds of a trial, every block of the round, of
  the block table and of the live blocks, and every block behind them (their parents'
  blocks, down the genesis chain that \<open>makeGen\<close> builds) obeys the height rule: a
  genesis block (owner \<open>-1\<close>) has height 0, whether it has a parent tipset or not,
  and any other block has a parent tipset and is one higher than it.
\<close>

theorem heights_consistent:
  assumes "sort_ok L" and "\<forall>rd i. visit_ok (visit rd i)"
    and "initSim L seedDrawn drawn totalMiners lbp = Inr s0"
    and "runRounds L visit lbp n s0 = Inr s"
  shows "(\<forall>b \<in> set (blocks s). everyBlock heightConsistent (\<lambda>t. True) b) \<and>
         (\<forall>k b. allBlocks (ct s) k = Some b \<longrightarrow> everyBlock heightConsistent (\<lambda>t. True) b) \<and>
         (\<forall>h bs. liveBlocksByHeight (ct s) h = Some bs \<longrightarrow>
            (\<forall>b \<in> set bs. everyBlock heightConsistent (\<lambda>t. True) b))"
proof -
  have w: "everyBlock heightConsistent (\<lambda>t. True) b" if "wfBlock b" for b
    using that unfolding wfBlock_def by (rule everyBlock_mono) simp_all
  from trial_ok [OF assms] show ?thesis
    by (auto simp: simOk_def trackerOk_def intro: w)
qed

text \<open>
  C4. After any number of rounds of a trial, the head, every private fork of every
  miner, and every tipset behind them and behind the blocks of the round and of the
  block table obeys the weight rule: its weight is the parent weight of its first block
  plus 0 if all its blocks are null and plus the number of its blocks otherwise; and a
  tipset with a null block has exactly one block.
\<close>

theorem weights_consistent:
  assumes "sort_ok L" and "\<forall>rd i. visit_ok (visit rd i)"
    and "initSim L seedDrawn drawn totalMiners lbp = Inr s0"
    and "runRounds L visit lbp n s0 = Inr s"
  shows "(\<exists>h. head (ct s) = Some h \<and> everyTipset (\<lambda>b. True) weightConsistent h) \<and>
         (\<forall>m \<in> set (miners (ct s)). \<forall>kv \<in> set (PrivateForks m).
            everyTipset (\<lambda>b. True) weightConsistent (snd kv)) \<and>
         (\<forall>b \<in> set (blocks s). everyBlock (\<lambda>b. True) weightConsistent b) \<and>
         (\<forall>k b. allBlocks (ct s) k = Some b \<longrightarrow> everyBlock (\<lambda>b. True) weightConsistent b)"
proof -
  have wb: "everyBlock (\<lambda>b. True) weightConsistent b" if "wfBlock b" for b
    using that unfolding wfBlock_def by (rule everyBlock_mono) simp_all
  have wt: "everyTipset (\<lambda>b. True) weightConsistent t" if "wfTipset t" for t
    using that unfolding wfTipset_def by (rule everyTipset_mono) simp_all
  from trial_ok [OF assms] have ok: "simOk s" .
  have "\<exists>h. head (ct s) = Some h \<and> everyTipset (\<lambda>b. True) weightConsistent h"
    using ok wt by (auto simp: simOk_def trackerOk_def)
  moreover have "\<forall>m \<in> set (miners (ct s)). \<forall>kv \<in> set (PrivateForks m).
            everyTipset (\<lambda>b. True) weightConsistent (snd kv)"
    using ok wt by (simp add: simOk_def trackerOk_def minerOk_def)
  moreover have "\<forall>b \<in> set (blocks s). everyBlock (\<lambda>b. True) weightConsistent b"
    using ok wb by (simp add: simOk_def)
  moreover have "\<forall>k b. allBlocks (ct s) k = Some b \<longrightarrow> everyBlock (\<lambda>b. True) weightConsistent b"
    using ok wb by (simp add: simOk_def trackerOk_def)
  ultimately show ?thesis by blast
qed

lemma exVisit_ok: "\<forall>rd i. visit_ok (exVisit rd i)"
  by (simp add: visit_ok_def exVisit_def)

theorem heights_consistent_witness:
  "sort_ok exLib \<and> (\<forall>rd i. visit_ok (exVisit rd i)) \<and>
   initSim exLib 5 exDrawn 1 1 = Inr exState0 \<and>
   runRounds exLib exVisit 1 1 exState0 = Inr exState1 \<and>
   allBlocks (ct exState1) 0 = Some exGen \<and> blocks exState1 = [exChild] \<and>
   everyBlock heightConsistent (\<lambda>t. True) exGen \<and>
   everyBlock heightConsistent (\<lambda>t. True) exChild"
proof -
  have a: "initSim exLib 5 exDrawn 1 1 = Inr exState0"
    by (simp add: initSim_example exState0_def)
  have b: "runRounds exLib exVisit 1 1 exState0 = Inr exState1"
    by (simp add: roundStep_example)
  have c: "allBlocks (ct exState1) 0 = Some exGen" "blocks exState1 = [exChild]"
    by (simp_all add: exState1_def)
  from heights_consistent [OF exLib_sort_ok exVisit_ok a b] c
  have "everyBlock heightConsistent (\<lambda>t. True) exGen"
    "everyBlock heightConsistent (\<lambda>t. True) exChild"
    by auto
  with a b c exLib_sort_ok exVisit_ok show ?thesis by simp
qed

theorem weights_consistent_witness:
  "sort_ok exLib \<and> (\<forall>rd i. visit_ok (exVisit rd i)) \<and>
   initSim exLib 5 exDrawn 1 1 = Inr exState0 \<and>
   runRounds exLib exVisit 1 1 exState0 = Inr exState1 \<and>
   head (ct exState1) = Some exGenesis \<and> blocks exState1 = [exChild] \<and>
   everyTipset (\<lambda>b. True) weightConsistent exGenesis \<and>
   everyBlock (\<lambda>b. True) weightConsistent exChild"
proof -
  have a: "initSim exLib 5 exDrawn 1 1 = Inr exState0"
    by (simp add: initSim_example exState0_def)
  have b: "runRounds exLib exVisit 1 1 exState0 = Inr exState1"
    by (simp add: roundStep_example)
  have c: "head (ct exState1) = Some exGenesis" "blocks exState1 = [exChild]"
    by (simp_all add: exState1_def exIdleTracker_def)
  from weights_consistent [OF exLib_sort_ok exVisit_ok a b] c
  have "everyTipset (\<lambda>b. True) weightConsistent exGenesis"
    "everyBlock (\<lambda>b. True) weightConsistent exChild"
    by auto
  with a b c exLib_sort_ok exVisit_ok show ?thesis by simp
qed

lemma makeGen_two:
  "makeGen L 2 totalMiners drawn uid =
     andThen (genChain L totalMiners drawn uid (Suc (Suc 0))) (\<lambda>(gen, u).
       case gen of
         None \<Rightarrow> Inl NilDeref
       | Some ts \<Rightarrow> (case Blocks ts of [] \<Rightarrow> Inl IndexOutOfRange | b # _ \<Rightarrow> Inr (b, u)))"
  by (simp add: makeGen_def numeral_2_eq_2)

lemma lookbackTipset_two: "lookbackTipset t 2 = walkBack (Suc 0) t"
  by (simp add: lookbackTipset_def)

lemma lookbackTipset_one: "lookbackTipset t 1 = Inr t"
  by (simp add: lookbackTipset_def)

text \<open>
  C9, as stated, fails: in a trial with a lookback of 2 the block table holds the second
  genesis block, whose height is 0 and whose parent tipset has height 0, not one less.
\<close>

theorem genesis_ancestor_height_counterexample:
  "tableEntry (runSim exLib 5 exDrawn exVisit 1 1 2) 1 = Some exGenInner \<and>
   Height exGenInner = 0 \<and> parentHeight exGenInner = Inr 0"
proof -
  have "tableEntry (runSim exLib 5 exDrawn exVisit 1 1 2) 1 = Some exGenInner"
    by (simp add: tableEntry_def runSim_def initSim_def randInt_def makeGen_two exDrawn_def
        NewChainTracker_def NewRationalMiner_def exGenInner_def exGenesis_def
        roundStep_def setHead_def headStep_def currentCandidate_def
        NewTipset_def exLib_def Itoa_def digits.simps digit_def forksFromTipset_def forkAt_def
        mineOne_def Mine_def ConsiderAllForks_def exVisit_def mineStep_def generateBlock_def
        lookbackTipset_two lookbackTipset_one generateTicket_def bigOlNum_def getHeight_def
        getParents_def isWinningTicket_def Let_def)
  then show ?thesis
    by (simp add: exGenInner_def parentHeight_def getHeight_def exGenesis_def)
qed

subsection \<open>Names of private forks in a trial\<close>

lemma digits_not_Nil: "digits n \<noteq> []"
  by (subst digits.simps) simp



lemma namedTipset_mono: "namedTipset uid t \<Longrightarrow> uid \<le> uid' \<Longrightarrow> namedTipset uid' t"
  by (fastforce simp: namedTipset_def)

lemma forksNamed_mono: "forksNamed uid pf \<Longrightarrow> uid \<le> uid' \<Longrightarrow> forksNamed uid' pf"
  by (auto simp: forksNamed_def intro: namedTipset_mono)


lemma NewTipset_named:
  assumes "sort_ok L" and "NewTipset L bs = Inr ts"
    and "\<forall>b \<in> set bs. 0 \<le> Nonce b \<and> Nonce b < uid"
  shows "namedTipset uid ts"
  using NewTipset_Blocks(1,3,4) [OF assms(2)] assms(3) sort_ok_set [OF assms(1), of bs]
  by (simp add: namedTipset_def)

lemma allTipsets_named:
  assumes "sort_ok L" and "allTipsets L blks = Inr tss"
    and "\<forall>b \<in> set blks. 0 \<le> Nonce b \<and> Nonce b < uid"
  shows "\<forall>ts \<in> set tss. namedTipset uid ts"
  using assms(2,3)
proof (induction blks arbitrary: tss)
  case Nil
  then show ?case by simp
next
  case (Cons blk rest)
  from Cons.prems(1) obtain mem ts tss' where
    m: "laterMembers blk rest = Inr mem" and t: "NewTipset L (blk # mem) = Inr ts"
    and r: "allTipsets L rest = Inr tss'" and e: "tss = ts # tss'"
    by (auto simp: andThen_eq_Inr)
  have "\<forall>b \<in> set (blk # mem). 0 \<le> Nonce b \<and> Nonce b < uid"
    using laterMembers_subset [OF m] Cons.prems(2) by auto
  then have "namedTipset uid ts" by (rule NewTipset_named [OF assms(1) t])
  moreover have "\<forall>ts \<in> set tss'. namedTipset uid ts"
    using Cons.IH [OF r] Cons.prems(2) by simp
  ultimately show ?case using e by simp
qed

lemma forksFromTipset_named:
  assumes "sort_ok L" and "forksFromTipset L ts = Inr forks" and "namedTipset uid ts"
  shows "\<forall>f \<in> set forks. namedTipset uid f"
proof
  fix f assume "f \<in> set forks"
  then obtain i where i: "i < length forks" "f = forks ! i"
    by (auto simp: in_set_conv_nth)
  note n = forksFromTipset_nth [OF assms(2)]
  have il: "i < length (Blocks ts)" using i(1) n(1) by simp
  have nt: "NewTipset L (drop i (Blocks ts)) = Inr f"
    using n(2) [OF il] i(2) by simp
  have "\<forall>b \<in> set (drop i (Blocks ts)). 0 \<le> Nonce b \<and> Nonce b < uid"
    using set_drop_subset [of i "Blocks ts"] assms(3) by (auto simp: namedTipset_def)
  then show "namedTipset uid f" by (rule NewTipset_named [OF assms(1) nt])
qed

lemma atsforks_named:
  assumes "sort_ok L" and "allTipsets L blks = Inr ats"
    and "mapE (forksFromTipset L) ats = Inr atsforks"
    and "\<forall>b \<in> set blks. 0 \<le> Nonce b \<and> Nonce b < uid"
  shows "\<forall>f \<in> set (concat atsforks). namedTipset uid f"
proof
  fix f assume "f \<in> set (concat atsforks)"
  then obtain forks where f: "forks \<in> set atsforks" "f \<in> set forks" by auto
  from assms(3) have "list_all2 (\<lambda>ts y. forksFromTipset L ts = Inr y) ats atsforks"
    by (simp add: mapE_eq_Inr)
  then have l: "length ats = length atsforks"
    and a: "\<And>i. i < length ats \<Longrightarrow> forksFromTipset L (ats ! i) = Inr (atsforks ! i)"
    by (simp_all add: list_all2_conv_all_nth)
  from f(1) obtain i where i: "i < length atsforks" "forks = atsforks ! i"
    by (auto simp: in_set_conv_nth)
  have "ats ! i \<in> set ats" "forksFromTipset L (ats ! i) = Inr forks"
    using i l a [of i] by simp_all
  then show "namedTipset uid f"
    using forksFromTipset_named [OF assms(1), of "ats ! i" forks uid]
      allTipsets_named [OF assms(1,2,4)] f(2) by blast
qed

lemma ConsiderAllForks_named:
  assumes "forksNamed uid (PrivateForks m)" and "\<forall>f \<in> set (concat atsforks). namedTipset uid f"
  shows "forksNamed uid (PrivateForks (ConsiderAllForks m atsforks))"
proof -
  have "\<forall>(k, t) \<in> set (PrivateForks (ConsiderAllForks m atsforks)). k = Name t \<and> namedTipset uid t"
    by (rule ConsiderAllForks_entries) (use assms in \<open>auto simp: forksNamed_def\<close>)
  then show ?thesis by (auto simp: forksNamed_def)
qed

lemma mineStep_ids:
  assumes "mineStep L m lbp v kv = Inr v'"
    and "u \<le> muid v \<and> 0 \<le> muid v \<and>
         (\<forall>b \<in> set (nullBlocks v). 0 \<le> Nonce b \<and> Nonce b < muid v) \<and>
         (\<forall>b. bestBlock v = Some b \<longrightarrow> 0 \<le> Nonce b \<and> Nonce b < muid v)"
  shows "u \<le> muid v' \<and> 0 \<le> muid v' \<and>
         (\<forall>b \<in> set (nullBlocks v'). 0 \<le> Nonce b \<and> Nonce b < muid v') \<and>
         (\<forall>b. bestBlock v' = Some b \<longrightarrow> 0 \<le> Nonce b \<and> Nonce b < muid v')"
proof -
  from assms(1) obtain blk uid st where
    g: "generateBlock L m (snd kv) lbp (muid v) = Inr (blk, uid, st)"
    and v': "v' = (if \<not> Null blk \<and> ParentWeight blk > maxWeight v then
                    v\<lparr>muid := uid, mrnd := st, bestBlock := Some blk,
                      maxWeight := ParentWeight blk\<rparr>
                  else if Null blk \<and> bestBlock v = None then
                    v\<lparr>muid := uid, mrnd := st, nullBlocks := nullBlocks v @ [blk],
                      mct := (mct v)\<lparr>allBlocks := (allBlocks (mct v))(Nonce blk \<mapsto> blk)\<rparr>\<rparr>
                  else v\<lparr>muid := uid, mrnd := st\<rparr>)"
    by (auto simp: mineStep_def andThen_eq_Inr Let_def split: if_splits)
  note f = generateBlock_fields(2,3) [OF g]
  show ?thesis
    using assms(2) f unfolding v' by (auto split: if_splits)
qed

lemma extendNull_named:
  assumes "sort_ok L" and "extendNull L pf nb = Inr pf'" and "forksNamed u pf"
    and "0 \<le> Nonce nb \<and> Nonce nb < u"
  shows "forksNamed u pf'"
proof -
  from assms(2) obtain pname nt where nt: "NewTipset L [nb] = Inr nt"
    and pf': "pf' = AList.update (Name nt) nt (AList.delete pname pf)"
    by (auto simp: extendNull_def andThen_eq_Inr)
  have n: "namedTipset u nt"
    using NewTipset_named [OF assms(1) nt] assms(4) by simp
  have "\<forall>(k, t) \<in> set (AList.delete pname pf). k = Name t \<and> namedTipset u t"
    using assms(3) delete_subset [of pname pf] by (fastforce simp: forksNamed_def)
  from update_keyed [where P = "\<lambda>k t. k = Name t \<and> namedTipset u t" and k = "Name nt" and v = nt,
      OF this] n
  show ?thesis
    unfolding pf' by (auto simp: forksNamed_def)
qed

lemma Mine_ids:
  assumes "sort_ok L" and "visit_ok visit"
    and "Mine L visit c uid st m atsforks lbp = Inr (m', c', uid', st', res)"
    and "0 \<le> uid" and "forksNamed uid (PrivateForks m)"
    and "\<forall>f \<in> set (concat atsforks). namedTipset uid f"
  shows "uid \<le> uid' \<and> forksNamed uid' (PrivateForks m') \<and>
         (\<forall>b. res = Some b \<longrightarrow> 0 \<le> Nonce b \<and> Nonce b < uid')"
proof -
  define m1 where "m1 = ConsiderAllForks m atsforks"
  define forks where "forks = PrivateForks m1"
  define v0 :: "'a mineVars" where
    "v0 = \<lparr>nullBlocks = [], maxWeight = 0, bestBlock = None, mct = c, muid = uid, mrnd = st\<rparr>"
  have unf: "Mine L visit c uid st m atsforks lbp =
      andThen (foldE (mineStep L m1 lbp) (visit forks) v0) (\<lambda>v.
        case bestBlock v of
          Some b \<Rightarrow> Inr (m1\<lparr>PrivateForks := []\<rparr>, mct v, muid v, mrnd v, Some b)
        | None \<Rightarrow> andThen (foldE (extendNull L) (nullBlocks v) forks)
                    (\<lambda>pf. Inr (m1\<lparr>PrivateForks := pf\<rparr>, mct v, muid v, mrnd v, None)))"
    unfolding Mine_def Let_def m1_def v0_def forks_def by (rule refl)
  from assms(3) [unfolded unf andThen_eq_Inr] obtain v where
    loop: "foldE (mineStep L m1 lbp) (visit forks) v0 = Inr v"
    and fin: "(case bestBlock v of
                 Some b \<Rightarrow> Inr (m1\<lparr>PrivateForks := []\<rparr>, mct v, muid v, mrnd v, Some b)
               | None \<Rightarrow> andThen (foldE (extendNull L) (nullBlocks v) forks)
                           (\<lambda>pf. Inr (m1\<lparr>PrivateForks := pf\<rparr>, mct v, muid v, mrnd v, None)))
              = Inr (m', c', uid', st', res)"
    by blast
  have fn: "forksNamed uid forks"
    unfolding forks_def m1_def by (rule ConsiderAllForks_named [OF assms(5,6)])
  have v: "uid \<le> muid v \<and> 0 \<le> muid v \<and>
           (\<forall>b \<in> set (nullBlocks v). 0 \<le> Nonce b \<and> Nonce b < muid v) \<and>
           (\<forall>b. bestBlock v = Some b \<longrightarrow> 0 \<le> Nonce b \<and> Nonce b < muid v)"
    by (rule foldE_inv [where P = "\<lambda>v. uid \<le> muid v \<and> 0 \<le> muid v \<and>
           (\<forall>b \<in> set (nullBlocks v). 0 \<le> Nonce b \<and> Nonce b < muid v) \<and>
           (\<forall>b. bestBlock v = Some b \<longrightarrow> 0 \<le> Nonce b \<and> Nonce b < muid v)", OF loop])
      (use assms(4) in \<open>auto simp: v0_def dest!: mineStep_ids [where u = uid]\<close>)
  show ?thesis
  proof (cases "bestBlock v")
    case (Some b)
    with fin have "m' = m1\<lparr>PrivateForks := []\<rparr>" "uid' = muid v" "res = Some b" by auto
    then show ?thesis using v Some by (auto simp: forksNamed_def)
  next
    case None
    with fin obtain pf where ext: "foldE (extendNull L) (nullBlocks v) forks = Inr pf"
      and r: "m' = m1\<lparr>PrivateForks := pf\<rparr>" "uid' = muid v" "res = None"
      by (auto simp: andThen_eq_Inr)
    have start: "forksNamed (muid v) forks"
      using fn v by (auto intro: forksNamed_mono)
    have "forksNamed (muid v) pf"
    proof (rule foldE_inv [where P = "forksNamed (muid v)", OF ext start])
      fix s x s'
      assume "x \<in> set (nullBlocks v)" "forksNamed (muid v) s" "extendNull L s x = Inr s'"
      then show "forksNamed (muid v) s'"
        using extendNull_named [OF assms(1), of s x s' "muid v"] v by auto
    qed
    then show ?thesis using r v by simp
  qed
qed

lemma mineOne_ids:
  assumes "sort_ok L" and "visit_ok (visit i)"
    and "mineOne L visit atsforks lbp s i = Inr s'"
    and "idsOk s" and "i < length (miners (ct s))"
    and "\<forall>f \<in> set (concat atsforks). namedTipset (uniqueID s) f"
  shows "idsOk s' \<and> uniqueID s \<le> uniqueID s'"
proof -
  from assms(3) obtain m' c' uid' st' res where
    mine: "Mine L (visit i) (ct s) (uniqueID s) (rnd s) (miners (ct s) ! i) atsforks lbp
             = Inr (m', c', uid', st', res)"
    and s': "s' = s\<lparr>ct := c'\<lparr>miners := (miners c')[i := m']\<rparr>, uniqueID := uid', rnd := st',
                   blocks := (case res of None \<Rightarrow> blocks s | Some b \<Rightarrow> blocks s @ [b])\<rparr>"
    by (auto simp: mineOne_def andThen_eq_Inr)
  have u0: "0 \<le> uniqueID s"
    and nb: "\<forall>b \<in> set (blocks s). 0 \<le> Nonce b \<and> Nonce b < uniqueID s"
    and fm: "\<forall>m \<in> set (miners (ct s)). forksNamed (uniqueID s) (PrivateForks m)"
    using assms(4) by (simp_all add: idsOk_def)
  have fi: "forksNamed (uniqueID s) (PrivateForks (miners (ct s) ! i))"
    using fm assms(5) by simp
  note ids = Mine_ids [OF assms(1,2) mine u0 fi assms(6)]
  have mc: "miners c' = miners (ct s)" using Mine_ct [OF mine] by simp
  have "set ((miners c')[i := m']) \<subseteq> insert m' (set (miners c'))"
    by (rule set_update_subset_insert)
  then have "\<forall>m \<in> set ((miners c')[i := m']). forksNamed uid' (PrivateForks m)"
    using ids fm mc by (auto intro: forksNamed_mono)
  moreover have "\<forall>b \<in> set (case res of None \<Rightarrow> blocks s | Some b \<Rightarrow> blocks s @ [b]).
                   0 \<le> Nonce b \<and> Nonce b < uid'"
    using nb ids by (cases res) fastforce+
  ultimately show ?thesis
    using ids u0 by (simp add: s' idsOk_def)
qed

lemma setHead_ids:
  assumes "setHead L c blks = Inr (c', blks')" and "head c = Some h"
  shows "miners c' = miners c \<and> map Nonce blks' = map Nonce blks"
  using setHead_cases [OF assms] by auto

lemma roundStep_ids:
  assumes "sort_ok L" and "\<forall>i. visit_ok (visit n i)"
    and "roundStep L visit lbp n s = Inr s'" and "idsOk s" and "head (ct s) = Some h"
  shows "idsOk s'"
proof -
  from assms(3) obtain c1 blks where sh: "setHead L (ct s) (blocks s) = Inr (c1, blks)"
    by (auto simp: roundStep_def andThen_eq_Inr)
  define c2 where
    "c2 = c1\<lparr>allBlocks := fold (\<lambda>blk tab. tab(Nonce blk \<mapsto> blk)) blks (allBlocks c1)\<rparr>"
  define cur where "cur = (if length blks > 0 then Height (hd blks) else currentHeight s)"
  define c3 where
    "c3 = (if length blks > 0
           then c2\<lparr>liveBlocksByHeight := (liveBlocksByHeight c2)(cur \<mapsto> blks)\<rparr> else c2)"
  from assms(3) obtain ats atsforks where ats: "allTipsets L blks = Inr ats"
    and fk: "mapE (forksFromTipset L) ats = Inr atsforks"
    and loop: "foldE (mineOne L (visit n) atsforks lbp) [0 ..< length (miners c3)]
                 (s\<lparr>ct := c3, blocks := [], currentHeight := cur\<rparr>) = Inr s'"
    unfolding roundStep_def sh
    by (auto simp: andThen_eq_Inr Let_def c2_def cur_def c3_def split: if_splits)
  note si = setHead_ids [OF sh assms(5)]
  have m3: "miners c3 = miners (ct s)"
    using si by (simp add: c3_def c2_def)
  have u0: "0 \<le> uniqueID s"
    and nb: "\<forall>b \<in> set (blocks s). 0 \<le> Nonce b \<and> Nonce b < uniqueID s"
    and fm: "\<forall>m \<in> set (miners (ct s)). forksNamed (uniqueID s) (PrivateForks m)"
    using assms(4) by (simp_all add: idsOk_def)
  have "set (map Nonce blks) = set (map Nonce (blocks s))" using si by simp
  then have nb': "\<forall>b \<in> set blks. 0 \<le> Nonce b \<and> Nonce b < uniqueID s"
    using nb by (metis (no_types, lifting) image_iff list.set_map)
  have an: "\<forall>f \<in> set (concat atsforks). namedTipset (uniqueID s) f"
    by (rule atsforks_named [OF assms(1) ats fk nb'])
  define P where "P = (\<lambda>t :: 'a simState. idsOk t \<and> uniqueID s \<le> uniqueID t \<and>
                          length (miners (ct t)) = length (miners c3))"
  have start: "P (s\<lparr>ct := c3, blocks := [], currentHeight := cur\<rparr>)"
    using u0 fm by (simp add: P_def idsOk_def m3)
  have "P s'"
  proof (rule foldE_inv [where P = P, OF loop start])
    fix t i t'
    assume i: "i \<in> set [0 ..< length (miners c3)]" and t: "P t"
      and st: "mineOne L (visit n) atsforks lbp t i = Inr t'"
    have il: "i < length (miners (ct t))" using i t by (simp add: P_def)
    have an': "\<forall>f \<in> set (concat atsforks). namedTipset (uniqueID t) f"
      using an t by (auto simp: P_def intro: namedTipset_mono)
    have v: "visit_ok (visit n i)" using assms(2) by simp
    from mineOne_ids [OF assms(1) v st _ il an'] t mineOne_head [OF st]
    show "P t'" by (simp add: P_def)
  qed
  then show ?thesis by (simp add: P_def)
qed

lemma runRounds_ids:
  assumes "sort_ok L" and "\<forall>rd i. visit_ok (visit rd i)"
    and "runRounds L visit lbp n s0 = Inr s" and "idsOk s0" and "head (ct s0) = Some h0"
  shows "idsOk s"
  using assms(3)
proof (induction n arbitrary: s)
  case 0
  then show ?case using assms(4) by simp
next
  case (Suc n)
  from Suc.prems obtain s1 where s1: "runRounds L visit lbp n s0 = Inr s1"
    and st: "roundStep L visit lbp n s1 = Inr s"
    by (auto simp: andThen_eq_Inr)
  obtain h where h: "head (ct s1) = Some h"
    using runRounds_head [OF s1 assms(5)] ..
  show ?case
    using roundStep_ids [OF assms(1) _ st Suc.IH [OF s1] h] assms(2) by simp
qed

lemma genChain_ids:
  assumes "sort_ok L" and "genChain L totalMiners drawn uid i = Inr (gen, u)"
  shows "uid \<le> u \<and> (case gen of None \<Rightarrow> True
                      | Some ts \<Rightarrow> \<forall>b \<in> set (Blocks ts). uid \<le> Nonce b \<and> Nonce b < u)"
  using assms(2)
proof (induction i arbitrary: gen u)
  case 0
  then show ?case by simp
next
  case (Suc i)
  from Suc.prems obtain g0 u0 sd ts where
    p: "genChain L totalMiners drawn uid i = Inr (g0, u0)"
    and t: "NewTipset L [Block u0 g0 (- 1) 0 False 0 (word_of_int sd) True] = Inr ts"
    and e: "gen = Some ts" "u = u0 + 1"
    by (auto simp: andThen_eq_Inr)
  have "set (Blocks ts) = {Block u0 g0 (- 1) 0 False 0 (word_of_int sd) True}"
    using NewTipset_Blocks(1) [OF t] sort_ok_set [OF assms(1)] by simp
  then show ?case using Suc.IH [OF p] e by simp
qed

lemma initSim_ids:
  assumes "sort_ok L" and "initSim L seedDrawn drawn totalMiners lbp = Inr s0"
  shows "idsOk s0"
proof -
  from assms(2) obtain gen uid h where mg: "makeGen L lbp totalMiners drawn 0 = Inr (gen, uid)"
    and s0: "s0 = \<lparr>ct = (NewChainTracker
                       (map (\<lambda>m. NewRationalMiner (int m) (1 / real_of_int totalMiners) totalMiners)
                            [0 ..< nat totalMiners]))\<lparr>head := Some h\<rparr>,
                blocks = [gen], currentHeight = 0, uniqueID = uid,
                rnd = randSeed L (word_of_int seedDrawn)\<rparr>"
    by (auto simp: initSim_def andThen_eq_Inr randInt_def split: if_splits)
  from mg [unfolded makeGen_def andThen_eq_Inr] obtain p where
    gp: "genChain L totalMiners drawn 0 (nat lbp) = Inr p"
    and r: "(case p of (gen', u) \<Rightarrow>
               case gen' of None \<Rightarrow> Inl NilDeref
               | Some ts \<Rightarrow> (case Blocks ts of [] \<Rightarrow> Inl IndexOutOfRange | b # _ \<Rightarrow> Inr (b, u)))
            = Inr (gen, uid)"
    by blast
  obtain g0 u where p: "p = (g0, u)" by (cases p)
  from r obtain ts where g0: "g0 = Some ts" and g: "gen \<in> set (Blocks ts)" and u: "u = uid"
    unfolding p by (cases g0; cases "Blocks (the g0)") auto
  have gc: "genChain L totalMiners drawn 0 (nat lbp) = Inr (Some ts, uid)"
    using gp p g0 u by simp
  from genChain_ids [OF assms(1) gc] g have "0 \<le> uid" "0 \<le> Nonce gen \<and> Nonce gen < uid"
    by auto
  then show ?thesis
    by (simp add: s0 idsOk_def NewChainTracker_def NewRationalMiner_def forksNamed_def)
qed

lemma trial_ids:
  assumes "sort_ok L" and "\<forall>rd i. visit_ok (visit rd i)"
    and "initSim L seedDrawn drawn totalMiners lbp = Inr s0"
    and "runRounds L visit lbp n s0 = Inr s"
  shows "idsOk s"
proof -
  obtain h0 where "head (ct s0) = Some h0" using initSim_head [OF assms(3)] ..
  then show ?thesis
    using runRounds_ids [OF assms(1,2,4) initSim_ids [OF assms(1,3)]] by simp
qed




end
